theory Spec2Isabelle
  imports Main "HOL-Library.AList"
begin

section \<open>The radix tree of js-search-rt (trunk/js-search-rt/RadixTree.js)\<close>

text \<open>
  A tree node is a JavaScript object whose own properties are the edge labels leading to
  the child nodes, in the order in which they were added, and the property \<open>$\<close>, which
  holds the array of data attached to the node. \<open>children\<close> is the association list
  of the properties whose value is a node (an assignment to an existing label replaces its
  value in place, a new label is appended, as for the properties of an object) and
  \<open>dollar\<close> is the array under \<open>$\<close>, \<open>None\<close> when \<open>$\<close> holds no array. The
  code also stores nodes under \<open>$\<close> (\<open>_createNode\<close> with the key \<open>$\<close>, \<open>_splitNode\<close>
  with \<open>tempKey\<close>, \<open>tempIndexKey\<close> or \<open>str\<close> equal to \<open>$\<close>): such a node is the
  child with the label \<open>$\<close>, and a node has either that child or the array, since both
  are the one property \<open>$\<close> (see \<open>putProp\<close>, \<open>delProp\<close>, \<open>_insertData\<close> and
  \<open>_removeData\<close> below).

  What the model leaves out: the enumeration of a node by \<open>_traverse\<close> visits the
  children and not the array under \<open>$\<close>, which the code enters when the rest of the key
  starts with \<open>$\<close>; an edge with the label \<open>__proto__\<close> is a child like any other,
  where the code sets the prototype of the object; and the children are enumerated in the
  order of insertion, where an engine visits the labels that are array indices first.
  The first two cannot happen with keys that, once processed, hold no \<open>$\<close> and nowhere
  the name \<open>__proto__\<close> (\<open>plain_key\<close>), on a tree built with such keys, and the third
  does not change the traversal where no two labels of a node start with the same
  character. The properties below that need it are stated for such keys and trees; the
  bound on the recursion of \<open>_traverse\<close> is proved for any enumeration.
  Strings are lists of 8-bit characters.
\<close>

datatype 'v node = Node (children: "(string \<times> 'v node) list") (dollar: "'v list option")

text \<open>
  The counters are JavaScript numbers: integers, and \<open>NaN\<close>, which \<open>_removeData\<close>
  assigns to \<open>dataCount\<close> when it subtracts the \<open>length\<close> of a node stored under
  \<open>$\<close>. Arithmetic with \<open>NaN\<close> gives \<open>NaN\<close>.
\<close>

datatype jsnum = Num int | NaN

instantiation jsnum :: "{zero, one, plus, minus}"
begin

definition zero_jsnum :: jsnum where
  "zero_jsnum = Num 0"

definition one_jsnum :: jsnum where
  "one_jsnum = Num 1"

fun plus_jsnum :: "jsnum \<Rightarrow> jsnum \<Rightarrow> jsnum" where
  "plus_jsnum (Num a) (Num b) = Num (a + b)"
| "plus_jsnum _ _ = NaN"

fun minus_jsnum :: "jsnum \<Rightarrow> jsnum \<Rightarrow> jsnum" where
  "minus_jsnum (Num a) (Num b) = Num (a - b)"
| "minus_jsnum _ _ = NaN"

instance ..

end

instance jsnum :: numeral
proof
  fix a b c :: jsnum
  show "a + b + c = a + (b + c)"
    by (cases a; cases b; cases c) simp_all
qed

record 'v RadixTree =
  keywordCount :: int
  dataCount :: jsnum
  tree :: "'v node"
  keySwap :: "(string \<times> string) list option"

text \<open>The object of the usage comment: both counters 0, an empty tree, no key swap.\<close>

definition emptyTree :: "'v RadixTree" where
  "emptyTree = \<lparr>keywordCount = 0, dataCount = 0, tree = Node [] None, keySwap = None\<rparr>"

text \<open>
  The index object of a traversal. \<open>index.node\<close> is a reference into the tree and
  \<open>index.parents\<close> the array of the references to its ancestors, the root first. Nodes
  are never shared, so a reference is the list of edge labels from the root: \<open>parents\<close>
  holds, for each ancestor pushed by \<open>_traverse\<close>, the label followed out of it, and
  \<open>node\<close> is the object this path leads to (of type \<open>'v node\<close> everywhere but in the
  generic traversal \<open>descendFuel\<close>).
\<close>

record 'o Index =
  node :: 'o
  nodeKey :: string
  charsMatch :: nat
  ttlCharsMatch :: nat
  parents :: "string list"

definition newIndex :: "'o \<Rightarrow> 'o Index" where
  "newIndex n = \<lparr>node = n, nodeKey = [], charsMatch = 0, ttlCharsMatch = 0, parents = []\<rparr>"

datatype error = TypeError

text \<open>The lines written with \<open>console.log\<close>, one constructor for each call site.\<close>

datatype message =
    DoesntExist string
  | ContainsSuffix string string
  | PartialMatch string string
  | RemoveErrorFailed string
  | NoMatchingData string
  | ProcessResultsFailed string

type_synonym 'v result = "error + ('v RadixTree \<times> message list)"

record ('d, 'v) Callbacks =
  nonExists :: "string \<Rightarrow> 'd \<Rightarrow> 'v node Index \<Rightarrow> 'v RadixTree \<Rightarrow> 'v result"
  suffix :: "string \<Rightarrow> 'd \<Rightarrow> 'v node Index \<Rightarrow> 'v RadixTree \<Rightarrow> 'v result"
  exact :: "string \<Rightarrow> 'd \<Rightarrow> 'v node Index \<Rightarrow> 'v RadixTree \<Rightarrow> 'v result"
  exists :: "string \<Rightarrow> 'd \<Rightarrow> 'v node Index \<Rightarrow> 'v RadixTree \<Rightarrow> 'v result"

subsection \<open>References into the tree\<close>

fun get_node :: "string list \<Rightarrow> 'v node \<Rightarrow> 'v node option" where
  "get_node [] n = Some n"
| "get_node (k # ks) n =
     (case map_of (children n) k of None \<Rightarrow> None | Some c \<Rightarrow> get_node ks c)"

text \<open>\<open>modify p f root\<close> is the tree after the node that \<open>p\<close> refers to was mutated by \<open>f\<close>.\<close>

fun modify :: "string list \<Rightarrow> ('v node \<Rightarrow> 'v node) \<Rightarrow> 'v node \<Rightarrow> 'v node" where
  "modify [] f n = f n"
| "modify (k # ks) f n =
     Node (map (\<lambda>(k', c). if k' = k then (k', modify ks f c) else (k', c)) (children n))
          (dollar n)"

subsection \<open>Utility functions\<close>

definition toLowerCase_char :: "char \<Rightarrow> char" where
  "toLowerCase_char c =
     (let n = (of_char c :: nat) in
      if (65 \<le> n \<and> n \<le> 90) \<or> (192 \<le> n \<and> n \<le> 222 \<and> n \<noteq> 215)
      then char_of (n + 32) else c)"

text \<open>
  \<open>this.keySwap && this.keySwap[key]\<close>. The table is an object literal, given here by
  its own entries: an absent table, a key with an own entry that is the empty string, and a
  key with no entry leave the key as it is, unless the key with no entry names a member
  that the table inherits from \<open>Object.prototype\<close>. Then \<open>this.keySwap[key]\<close> is that
  member, a function or an object, \<open>key\<close> is assigned it, and \<open>key.toLowerCase()\<close>
  raises a TypeError.
\<close>

definition objectPrototypeMembers :: "string list" where
  "objectPrototypeMembers =
     [''constructor'', ''__defineGetter__'', ''__defineSetter__'', ''hasOwnProperty'',
      ''__lookupGetter__'', ''__lookupSetter__'', ''isPrototypeOf'', ''propertyIsEnumerable'',
      ''toString'', ''valueOf'', ''__proto__'', ''toLocaleString'']"

definition lowerUnderscore :: "string \<Rightarrow> string" where
  "lowerUnderscore key =
     map (\<lambda>c. if c = CHR '' '' then CHR ''_'' else c) (map toLowerCase_char key)"

definition processKey :: "'v RadixTree \<Rightarrow> string \<Rightarrow> error + string" where
  "processKey this key =
     (case keySwap this of
        None \<Rightarrow> Inr (lowerUnderscore key)
      | Some swap \<Rightarrow>
          (case map_of swap key of
             Some s \<Rightarrow> Inr (lowerUnderscore (if s \<noteq> [] then s else key))
           | None \<Rightarrow>
               if key \<in> set objectPrototypeMembers then Inl TypeError
               else Inr (lowerUnderscore key)))"

text \<open>\<open>_leafCount\<close>: the own properties other than \<open>$\<close>.\<close>

definition leafCount :: "'v node \<Rightarrow> nat" where
  "leafCount n = length (filter (\<lambda>(k, c). k \<noteq> ''$'') (children n))"

definition isEmpty :: "'v node \<Rightarrow> bool" where
  "isEmpty n = (children n = [] \<and> dollar n = None)"

subsection \<open>Traversal\<close>

text \<open>
  The inner loop of \<open>_traverse\<close>: the number of leading characters on which the rest of
  the key and an edge label agree (\<open>charAt\<close> past the end of the label is the empty
  string, which differs from every character of the key).
\<close>

fun loopChars :: "string \<Rightarrow> string \<Rightarrow> nat" where
  "loopChars (x # xs) (y # ys) = (if x = y then Suc (loopChars xs ys) else 0)"
| "loopChars _ _ = 0"

text \<open>
  The outer loop: the first property, in enumeration order, with a match of at least one
  character.
\<close>

fun loopChildren :: "string \<Rightarrow> (string \<times> 'o) list \<Rightarrow> (string \<times> 'o \<times> nat) option" where
  "loopChildren tempKey [] = None"
| "loopChildren tempKey ((str, c) # rest) =
     (let i = loopChars tempKey str
      in if i > 0 then Some (str, c, i) else loopChildren tempKey rest)"

text \<open>
  One activation of \<open>_traverse\<close> up to its final test: the index after the loops.
  \<open>forIn\<close> is what \<open>for (var str in index.node)\<close> enumerates, the property names with
  their values \<open>index.node[str]\<close>; \<open>matchStep\<close> is the step on the nodes of the model,
  which enumerates the children.
\<close>

definition matchStepG :: "('o \<Rightarrow> (string \<times> 'o) list) \<Rightarrow> string \<Rightarrow> 'o Index \<Rightarrow> 'o Index" where
  "matchStepG forIn key index =
     (let tempKey = drop (ttlCharsMatch index) key
      in case loopChildren tempKey (forIn (node index)) of
           None \<Rightarrow> index
         | Some (str, c, i) \<Rightarrow>
             \<lparr>node = (if i = length str then c else node index),
              nodeKey = str,
              charsMatch = i,
              ttlCharsMatch = ttlCharsMatch index + i,
              parents = (if i = length str then parents index @ [str] else parents index)\<rparr>)"

definition matchStep :: "string \<Rightarrow> 'v node Index \<Rightarrow> 'v node Index" where
  "matchStep key index = matchStepG children key index"

definition processResults ::
  "string \<Rightarrow> 'd \<Rightarrow> 'v node Index \<Rightarrow> ('d, 'v) Callbacks \<Rightarrow> 'v RadixTree \<Rightarrow> 'v result" where
  "processResults key dat index callbacks this =
     (if ttlCharsMatch index = 0 then nonExists callbacks key dat index this
      else if ttlCharsMatch index < length key \<and> charsMatch index = length (nodeKey index)
        then suffix callbacks key dat index this
      else if ttlCharsMatch index = length key \<and> charsMatch index = length (nodeKey index)
        then exact callbacks key dat index this
      else if ttlCharsMatch index > 0 then exists callbacks key dat index this
      else Inr (this, [ProcessResultsFailed key]))"

function traverse ::
  "string \<Rightarrow> 'd \<Rightarrow> 'v node Index \<Rightarrow> ('d, 'v) Callbacks \<Rightarrow> 'v RadixTree \<Rightarrow> 'v result" where
  "traverse key dat index callbacks this =
     (let index' = matchStep key index
      in if ttlCharsMatch index' < length key \<and> leafCount (node index') \<noteq> 0
            \<and> charsMatch index' = length (nodeKey index')
            \<and> ttlCharsMatch index \<noteq> ttlCharsMatch index'
         then traverse key dat index' callbacks this
         else processResults key dat index' callbacks this)"
  by pat_completeness auto
termination
  by (relation "measure (\<lambda>(key, dat, index, callbacks, this). length key - ttlCharsMatch index)")
     (auto simp: matchStep_def matchStepG_def neq_Nil_conv split: option.splits)

text \<open>The index that \<open>_traverse\<close> hands to \<open>_processResults\<close>.\<close>

function descend :: "string \<Rightarrow> 'v node Index \<Rightarrow> 'v node Index" where
  "descend key index =
     (let index' = matchStep key index
      in if ttlCharsMatch index' < length key \<and> leafCount (node index') \<noteq> 0
            \<and> charsMatch index' = length (nodeKey index')
            \<and> ttlCharsMatch index \<noteq> ttlCharsMatch index'
         then descend key index'
         else index')"
  by pat_completeness auto
termination
  by (relation "measure (\<lambda>(key, index). length key - ttlCharsMatch index)")
     (auto simp: matchStep_def matchStepG_def neq_Nil_conv split: option.splits)



subsection \<open>Insert functions\<close>

text \<open>
  The handlers mutate the node that \<open>index.node\<close> refers to: \<open>assign\<close> stores the
  mutated node at the place of the tree that the index refers to.
\<close>

definition assign :: "'v node Index \<Rightarrow> 'v node \<Rightarrow> 'v node \<Rightarrow> 'v node" where
  "assign index n root = modify (parents index) (\<lambda>_. n) root"

text \<open>
  \<open>node[k] = c\<close> and \<open>delete node[k]\<close> for a node \<open>c\<close>: \<open>setChild\<close> and
  \<open>deleteChild\<close> for a label other than \<open>$\<close>; with the label \<open>$\<close> the assignment
  replaces the data array, and the deletion removes it.
\<close>

definition setChild :: "string \<Rightarrow> 'v node \<Rightarrow> 'v node \<Rightarrow> 'v node" where
  "setChild k c n = Node (AList.update k c (children n)) (dollar n)"

definition deleteChild :: "string \<Rightarrow> 'v node \<Rightarrow> 'v node" where
  "deleteChild k n = Node (AList.delete k (children n)) (dollar n)"

definition putProp :: "string \<Rightarrow> 'v node \<Rightarrow> 'v node \<Rightarrow> 'v node" where
  "putProp k c n =
     (if k = ''$'' then Node (AList.update k c (children n)) None else setChild k c n)"

definition delProp :: "string \<Rightarrow> 'v node \<Rightarrow> 'v node" where
  "delProp k n =
     (if k = ''$'' then Node (AList.delete k (children n)) None else deleteChild k n)"

text \<open>
  \<open>_insertData\<close>. When \<open>$\<close> holds a node \<open>c\<close>, \<open>index.node.$.length\<close> is the child
  of \<open>c\<close> with the label \<open>length\<close>, an object, and \<open>index.node.$.push\<close> is no
  function (a TypeError), or it is undefined and the array \<open>[data]\<close> replaces \<open>c\<close>.
\<close>

definition insertData :: "string \<Rightarrow> 'v \<Rightarrow> 'v node Index \<Rightarrow> 'v RadixTree \<Rightarrow> 'v result" where
  "insertData key dat index this =
     (let n = node index;
          store = (\<lambda>n'. Inr (this\<lparr>tree := assign index n' (tree this),
                                   dataCount := dataCount this + 1\<rparr>, []))
      in case dollar n of
           Some ds \<Rightarrow>
             if length ds \<noteq> 0 then store (Node (children n) (Some (ds @ [dat])))
             else store (Node (children n) (Some [dat]))
         | None \<Rightarrow>
             (case map_of (children n) ''$'' of
                None \<Rightarrow> store (Node (children n) (Some [dat]))
              | Some c \<Rightarrow>
                  if map_of (children c) ''length'' \<noteq> None then Inl TypeError
                  else store (Node (AList.delete ''$'' (children n)) (Some [dat]))))"

definition createNode :: "string \<Rightarrow> 'v \<Rightarrow> 'v node Index \<Rightarrow> 'v RadixTree \<Rightarrow> 'v result" where
  "createNode key dat index this =
     (let key' = (if ttlCharsMatch index \<noteq> 0 then drop (ttlCharsMatch index) key else key);
          n' = putProp key' (Node [] (Some [dat])) (node index)
      in Inr (this\<lparr>tree := assign index n' (tree this),
                   keywordCount := keywordCount this + 1,
                   dataCount := dataCount this + 1\<rparr>, []))"

text \<open>
  \<open>_splitNode\<close> is reached with \<open>charsMatch \<le> ttlCharsMatch\<close> and with \<open>nodeKey\<close> a
  label of \<open>index.node\<close> longer than \<open>charsMatch\<close>, so that \<open>tempKey\<close> is another
  label than \<open>nodeKey\<close> and \<open>index.node[index.nodeKey]\<close> is a node. The model reads it
  after the assignment to \<open>index.node[tempKey]\<close>, as the source does; where it is
  undefined the model adds no property.
\<close>

definition splitNode :: "string \<Rightarrow> 'v \<Rightarrow> 'v node Index \<Rightarrow> 'v RadixTree \<Rightarrow> 'v result" where
  "splitNode key dat index this =
     (let i = ttlCharsMatch index - charsMatch index;
          tempIndexKey = drop (charsMatch index) (nodeKey index);
          tempKey = take (charsMatch index) (drop i key);
          fresh = (if ttlCharsMatch index = length key then Node [] (Some [dat])
                   else (let str = drop (ttlCharsMatch index) key
                         in putProp str (Node [] (Some [dat])) (Node [] None)));
          n1 = putProp tempKey fresh (node index);
          n2 = (case map_of (children n1) (nodeKey index) of
                  None \<Rightarrow> n1
                | Some old \<Rightarrow>
                    (case map_of (children n1) tempKey of
                       None \<Rightarrow> n1
                     | Some t \<Rightarrow> putProp tempKey (putProp tempIndexKey old t) n1));
          n3 = delProp (nodeKey index) n2
      in Inr (this\<lparr>tree := assign index n3 (tree this),
                   keywordCount := keywordCount this + 1,
                   dataCount := dataCount this + 1\<rparr>, []))"

text \<open>\<open>insert\<close>: a TypeError of \<open>_processKey\<close> ends the call before the traversal.\<close>

definition insert_rt :: "string \<Rightarrow> 'v \<Rightarrow> 'v RadixTree \<Rightarrow> 'v result" where
  "insert_rt key dat this =
     (let index = newIndex (tree this);
          callbacks = \<lparr>nonExists = createNode, suffix = createNode,
                       exact = insertData, exists = splitNode\<rparr>
      in case processKey this key of
           Inl e \<Rightarrow> Inl e
         | Inr key' \<Rightarrow> traverse key' dat index callbacks this)"

subsection \<open>Remove functions\<close>

text \<open>
  \<open>_removeEmptyParents\<close>: the ancestors are visited from the deepest to the root, and
  each loses the properties whose value is empty (\<open>deleteEmpty\<close>; for the \<open>$\<close>
  property that is an array with no element).
\<close>

definition deleteEmpty :: "'v node \<Rightarrow> 'v node" where
  "deleteEmpty n =
     Node (filter (\<lambda>(k, c). \<not> isEmpty c) (children n))
          (if dollar n = Some [] then None else dollar n)"

fun removeEmptyParents :: "string list \<Rightarrow> 'v node \<Rightarrow> 'v node" where
  "removeEmptyParents [] n = n"
| "removeEmptyParents (k # ks) n =
     deleteEmpty
       (Node (map (\<lambda>(k', c). if k' = k then (k', removeEmptyParents ks c) else (k', c))
                  (children n))
             (dollar n))"

text \<open>
  The search loop of \<open>_removeData\<close>: the index of the first element whose
  \<open>JSON.stringify\<close> is \<open>testData\<close>, or the length of the array. \<open>stringify\<close> stands
  for \<open>JSON.stringify\<close> on the data values.
\<close>

fun loopData :: "('v \<Rightarrow> string) \<Rightarrow> string \<Rightarrow> 'v list \<Rightarrow> nat" where
  "loopData stringify testData [] = 0"
| "loopData stringify testData (x # xs) =
     (if testData = stringify x then 0 else Suc (loopData stringify testData xs))"

text \<open>
  \<open>dat = None\<close> is the call with no data (\<open>typeof data === "undefined"\<close>). Reading
  \<open>index.node.$.length\<close> on a node with no \<open>$\<close> property raises a TypeError, in both
  branches before anything is assigned. When \<open>$\<close> holds a node, its \<open>length\<close> is
  undefined or an object: the subtraction gives \<open>NaN\<close>, and the search loop, whose test
  \<open>i < arrlen\<close> is false at once, finds nothing.
\<close>

definition removeData ::
  "('v \<Rightarrow> string) \<Rightarrow> string \<Rightarrow> 'v option \<Rightarrow> 'v node Index \<Rightarrow> 'v RadixTree \<Rightarrow> 'v result" where
  "removeData stringify key dat index this =
     (let n = node index in
      case dat of
        None \<Rightarrow>
          (case dollar n of
             None \<Rightarrow>
               (case map_of (children n) ''$'' of
                  None \<Rightarrow> Inl TypeError
                | Some c \<Rightarrow>
                    (let n' = Node (AList.delete ''$'' (children n)) None;
                         this1 = this\<lparr>dataCount := NaN,
                                      tree := assign index n' (tree this),
                                      keywordCount := keywordCount this - 1\<rparr>
                     in if isEmpty n'
                        then Inr (this1\<lparr>tree := removeEmptyParents (parents index) (tree this1)\<rparr>, [])
                        else Inr (this1, [])))
           | Some ds \<Rightarrow>
               (let n' = Node (children n) None;
                    this1 = this\<lparr>dataCount := dataCount this - Num (int (length ds)),
                                 tree := assign index n' (tree this),
                                 keywordCount := keywordCount this - 1\<rparr>
                in if isEmpty n'
                   then Inr (this1\<lparr>tree := removeEmptyParents (parents index) (tree this1)\<rparr>, [])
                   else Inr (this1, [])))
      | Some d \<Rightarrow>
          (case dollar n of
             None \<Rightarrow>
               (case map_of (children n) ''$'' of
                  None \<Rightarrow> Inl TypeError
                | Some c \<Rightarrow> Inr (this, [NoMatchingData key]))
           | Some ds \<Rightarrow>
               (let testData = stringify d;
                    arrlen = length ds;
                    i = loopData stringify testData ds
                in if i < arrlen then
                     (let ds' = take i ds @ drop (Suc i) ds;
                          this1 = this\<lparr>tree := assign index (Node (children n) (Some ds')) (tree this),
                                       dataCount := dataCount this - 1\<rparr>
                      in if length ds' = 0 then
                           (let n' = Node (children n) None;
                                this2 = this1\<lparr>tree := assign index n' (tree this1),
                                              keywordCount := keywordCount this1 - 1\<rparr>
                            in if isEmpty n'
                               then Inr (this2\<lparr>tree := removeEmptyParents (parents index) (tree this2)\<rparr>, [])
                               else Inr (this2, []))
                         else Inr (this1, []))
                   else Inr (this, [NoMatchingData key]))))"

definition removeError :: "string \<Rightarrow> 'v option \<Rightarrow> 'v node Index \<Rightarrow> 'v RadixTree \<Rightarrow> 'v result" where
  "removeError key dat index this =
     (if ttlCharsMatch index = 0 then Inr (this, [DoesntExist key])
      else if ttlCharsMatch index < length key
        then Inr (this, [ContainsSuffix key (take (ttlCharsMatch index) key)])
      else if ttlCharsMatch index > 0
        then Inr (this, [PartialMatch key (take (ttlCharsMatch index) key)])
      else Inr (this, [RemoveErrorFailed key]))"

definition remove_rt ::
  "('v \<Rightarrow> string) \<Rightarrow> string \<Rightarrow> 'v option \<Rightarrow> 'v RadixTree \<Rightarrow> 'v result" where
  "remove_rt stringify key dat this =
     (let index = newIndex (tree this);
          callbacks = \<lparr>nonExists = removeError, suffix = removeError,
                       exact = removeData stringify, exists = removeError\<rparr>
      in case processKey this key of
           Inl e \<Rightarrow> Inl e
         | Inr key' \<Rightarrow> traverse key' dat index callbacks this)"

subsection \<open>Sequences of calls, full scans and invariants\<close>

text \<open>
  The keys with which no property name collides with \<open>$\<close> or with the prototype
  accessor: no \<open>$\<close> and nowhere the name \<open>__proto__\<close>. A tree is plain when all its
  edge labels are.
\<close>

fun contains :: "string \<Rightarrow> string \<Rightarrow> bool" where
  "contains p [] = (p = [])"
| "contains p (c # cs) = (take (length p) (c # cs) = p \<or> contains p cs)"

definition plain_key :: "string \<Rightarrow> bool" where
  "plain_key key = (CHR ''$'' \<notin> set key \<and> \<not> contains ''__proto__'' key)"

fun plain_tree :: "'v node \<Rightarrow> bool" where
  "plain_tree (Node cs d) = (\<forall>(k, c) \<in> set cs. plain_key k \<and> plain_tree c)"

datatype 'v call = Insert string 'v | Remove string "'v option"

fun call_key :: "'v call \<Rightarrow> string" where
  "call_key (Insert key dat) = key"
| "call_key (Remove key dat) = key"

fun exec :: "('v \<Rightarrow> string) \<Rightarrow> 'v call \<Rightarrow> 'v RadixTree \<Rightarrow> 'v result" where
  "exec stringify (Insert key dat) this = insert_rt key dat this"
| "exec stringify (Remove key dat) this = remove_rt stringify key dat this"

text \<open>
  A sequence of calls on one object. A call that raises leaves the object as it was (the
  TypeErrors of \<open>_processKey\<close>, \<open>_insertData\<close> and \<open>_removeData\<close> come before the
  first assignment), and the caller goes on with the next call.
\<close>

definition apply_call :: "('v \<Rightarrow> string) \<Rightarrow> 'v RadixTree \<Rightarrow> 'v call \<Rightarrow> 'v RadixTree" where
  "apply_call stringify this c =
     (case exec stringify c this of Inl e \<Rightarrow> this | Inr (this', msgs) \<Rightarrow> this')"

definition run :: "('v \<Rightarrow> string) \<Rightarrow> 'v call list \<Rightarrow> 'v RadixTree \<Rightarrow> 'v RadixTree" where
  "run stringify calls this = foldl (apply_call stringify) this calls"

text \<open>
  A call with a plain key: \<open>_processKey\<close> raises (and the call does nothing), or the
  processed key is plain.
\<close>

definition plain_call :: "'v RadixTree \<Rightarrow> 'v call \<Rightarrow> bool" where
  "plain_call this c =
     (case processKey this (call_key c) of Inl e \<Rightarrow> True | Inr key \<Rightarrow> plain_key key)"

text \<open>The full scans of the tree that the counters are meant to agree with.\<close>

fun scanKeywords :: "'v node \<Rightarrow> nat" where
  "scanKeywords (Node cs d) =
     (case d of None \<Rightarrow> 0 | Some ds \<Rightarrow> if ds \<noteq> [] then 1 else 0)
     + sum_list (map (\<lambda>(k, c). scanKeywords c) cs)"

fun scanData :: "'v node \<Rightarrow> nat" where
  "scanData (Node cs d) =
     (case d of None \<Rightarrow> 0 | Some ds \<Rightarrow> length ds)
     + sum_list (map (\<lambda>(k, c). scanData c) cs)"

text \<open>
  The radix property of one node: no two edge labels start with the same character
  (and at most one is empty). \<open>radix\<close> is the property at every node of a tree.
\<close>

definition radix_node :: "(string \<times> 'v node) list \<Rightarrow> bool" where
  "radix_node cs = distinct (map (\<lambda>(k, c). take 1 k) cs)"

fun radix :: "'v node \<Rightarrow> bool" where
  "radix (Node cs d) = (radix_node cs \<and> (\<forall>(k, c) \<in> set cs. radix c))"

text \<open>
  \<open>JSON.stringify\<close> on data values that are natural numbers: the decimal numeral.
\<close>

definition digitChar :: "nat \<Rightarrow> char" where
  "digitChar d = char_of (48 + d)"

function stringify_nat :: "nat \<Rightarrow> string" where
  "stringify_nat n =
     (if n < 10 then [digitChar n] else stringify_nat (n div 10) @ [digitChar (n mod 10)])"
  by pat_completeness auto
termination
  by (relation "measure id") auto






text \<open>Whether a call wrote the line of the \<open>default\<close> branch of \<open>_processResults\<close>.\<close>

fun isProcessResultsFailed :: "message \<Rightarrow> bool" where
  "isProcessResultsFailed (ProcessResultsFailed key) = True"
| "isProcessResultsFailed _ = False"

definition reportsFailure :: "'v result \<Rightarrow> bool" where
  "reportsFailure r =
     (case r of Inl e \<Rightarrow> False | Inr (this, msgs) \<Rightarrow> list_ex isProcessResultsFailed msgs)"

text \<open>
  Two notions for the proofs: an index all of whose steps matched a whole label, and the
  test of \<open>_traverse\<close> for another activation.
\<close>

definition on_path :: "string \<Rightarrow> 'v node \<Rightarrow> 'v node Index \<Rightarrow> bool" where
  "on_path key root index \<longleftrightarrow>
     get_node (parents index) root = Some (node index)
     \<and> charsMatch index = length (nodeKey index)
     \<and> concat (parents index) = take (ttlCharsMatch index) key
     \<and> ttlCharsMatch index \<le> length key"

definition keepGoing :: "string \<Rightarrow> 'v node Index \<Rightarrow> 'v node Index \<Rightarrow> bool" where
  "keepGoing key index index' \<longleftrightarrow>
     ttlCharsMatch index' < length key \<and> leafCount (node index') \<noteq> 0
     \<and> charsMatch index' = length (nodeKey index')
     \<and> ttlCharsMatch index \<noteq> ttlCharsMatch index'"

text \<open>
  A tree is \<open>clean\<close> when no node below the root is empty and no \<open>$\<close> property is an
  empty array.
\<close>

fun clean :: "'v node \<Rightarrow> bool" where
  "clean (Node cs d) = (d \<noteq> Some [] \<and> (\<forall>(k, c) \<in> set cs. \<not> isEmpty c \<and> clean c))"

section \<open>Properties\<close>

declare traverse.simps [simp del] descend.simps [simp del] stringify_nat.simps [simp del]

subsection \<open>Numbers, and the step on the nodes\<close>

lemma numeral_jsnum [simp, code]: "(numeral k :: jsnum) = Num (numeral k)"
proof (induction k)
  case One
  show ?case by (simp add: one_jsnum_def)
next
  case (Bit0 k)
  have "(numeral (num.Bit0 k) :: jsnum) = numeral k + numeral k" by (rule numeral.simps)
  also have "\<dots> = Num (numeral k + numeral k)" unfolding Bit0 by simp
  finally show ?case by (simp add: numeral.simps)
next
  case (Bit1 k)
  have "(numeral (num.Bit1 k) :: jsnum) = numeral k + numeral k + 1" by (rule numeral.simps)
  also have "\<dots> = Num (numeral k + numeral k + 1)" unfolding Bit1 by (simp add: one_jsnum_def)
  finally show ?case by (simp add: numeral.simps)
qed

lemma one_jsnum [simp]: "(1 :: jsnum) = Num 1"
  by (simp add: one_jsnum_def)

lemma zero_jsnum [simp]: "(0 :: jsnum) = Num 0"
  by (simp add: zero_jsnum_def)

lemma jsnum_inc_dec: "(x :: jsnum) + Num 1 - Num 1 = x"
  by (cases x) simp_all

lemma matchStep_unfold:
  "matchStep key index =
     (let tempKey = drop (ttlCharsMatch index) key
      in case loopChildren tempKey (children (node index)) of
           None \<Rightarrow> index
         | Some (str, c, i) \<Rightarrow>
             \<lparr>node = (if i = length str then c else node index),
              nodeKey = str,
              charsMatch = i,
              ttlCharsMatch = ttlCharsMatch index + i,
              parents = (if i = length str then parents index @ [str] else parents index)\<rparr>)"
  by (simp add: matchStep_def matchStepG_def)

subsection \<open>Traversal and dispatch\<close>

lemma traverse_descend:
  "traverse key dat index callbacks this =
     processResults key dat (descend key index) callbacks this"
proof (induction key dat index callbacks this rule: traverse.induct)
  case (1 key dat index callbacks this)
  show ?case
    by (subst traverse.simps, subst descend.simps) (use 1 in \<open>simp add: Let_def\<close>)
qed

text \<open>
  C6. When the descent stops, \<open>_processResults\<close> takes exactly one of the four branches,
  tested in the order non-existent, suffix, exact, exists: the fourth test
  \<open>ttlCharsMatch > 0\<close> holds whenever the first has failed, so the \<open>default\<close> branch is
  never taken, and no insert and no remove call writes its line.
\<close>

theorem classification_exhaustive:
  "processResults key dat index callbacks this =
     (if ttlCharsMatch index = 0 then nonExists callbacks key dat index this
      else if ttlCharsMatch index < length key \<and> charsMatch index = length (nodeKey index)
        then suffix callbacks key dat index this
      else if ttlCharsMatch index = length key \<and> charsMatch index = length (nodeKey index)
        then exact callbacks key dat index this
      else exists callbacks key dat index this)
   \<and> \<not> reportsFailure (insert_rt key1 dat1 this1)
   \<and> \<not> reportsFailure (remove_rt stringify key2 dat2 this2)"
  by (simp add: processResults_def insert_rt_def remove_rt_def traverse_descend reportsFailure_def
        createNode_def insertData_def splitNode_def removeError_def removeData_def Let_def
        split: option.splits sum.splits)

subsection \<open>Termination of the traversal\<close>

lemma loopChars_le1: "loopChars a b \<le> length a"
  by (induction a b rule: loopChars.induct) auto

lemma loopChars_le2: "loopChars a b \<le> length b"
  by (induction a b rule: loopChars.induct) auto

lemma loopChars_take: "take (loopChars a b) a = take (loopChars a b) b"
  by (induction a b rule: loopChars.induct) auto

lemma loopChars_differ:
  "loopChars a b < length a \<Longrightarrow> loopChars a b < length b \<Longrightarrow>
     a ! loopChars a b \<noteq> b ! loopChars a b"
  by (induction a b rule: loopChars.induct) auto

lemma loopChars_zero: "loopChars a b = 0 \<longleftrightarrow> a = [] \<or> b = [] \<or> hd a \<noteq> hd b"
  by (induction a b rule: loopChars.induct) auto

lemma loopChars_self: "loopChars a a = length a"
  by (induction a) auto

lemma loopChildren_Some:
  "loopChildren t cs = Some (str, c, i) \<Longrightarrow>
     map_of cs str = Some c \<and> i = loopChars t str \<and> 0 < i"
  by (induction t cs rule: loopChildren.induct) (auto simp: Let_def split: if_splits)

lemma loopChildren_None:
  "loopChildren t cs = None \<Longrightarrow> (k, c) \<in> set cs \<Longrightarrow> loopChars t k = 0"
  by (induction t cs rule: loopChildren.induct) (auto simp: Let_def split: if_splits)








subsection \<open>The index refers to a node of the tree\<close>

lemma get_node_append:
  "get_node (ps @ qs) root = (case get_node ps root of None \<Rightarrow> None | Some n \<Rightarrow> get_node qs n)"
  by (induction ps arbitrary: root) (auto split: option.splits)



lemma modify_modify_const:
  "modify p (\<lambda>_. n) (modify p f root) = modify p (\<lambda>_. n) root"
proof (induction p arbitrary: root)
  case Nil then show ?case by simp
next
  case (Cons k ks)
  then show ?case by (auto simp: comp_def case_prod_beta intro!: map_cong)
qed

lemma assign_assign: "assign index n (assign index n' root) = assign index n root"
  by (simp add: assign_def modify_modify_const)


lemma matchStep_consistent:
  assumes "get_node (parents index) root = Some (node index)"
  shows "get_node (parents (matchStep key index)) root = Some (node (matchStep key index))"
  using assms
  by (auto simp: matchStep_unfold get_node_append split: option.splits dest!: loopChildren_Some)

lemma descend_consistent:
  "get_node (parents index) root = Some (node index) \<Longrightarrow>
     get_node (parents (descend key index)) root = Some (node (descend key index))"
proof (induction key index rule: descend.induct)
  case (1 key index)
  show ?case
    using 1 matchStep_consistent[OF "1.prems", of key]
    by (subst (1 2) descend.simps) (simp add: Let_def)
qed

lemma descend_newIndex_consistent:
  "get_node (parents (descend key (newIndex root))) root = Some (node (descend key (newIndex root)))"
  by (rule descend_consistent) (simp add: newIndex_def)

subsection \<open>The index handed to the handlers\<close>

lemma descend_unfold:
  "descend key index =
     (if keepGoing key index (matchStep key index) then descend key (matchStep key index)
      else matchStep key index)"
  by (subst descend.simps) (simp add: Let_def keepGoing_def)

lemma on_path_newIndex: "on_path key root (newIndex root)"
  by (simp add: on_path_def newIndex_def)

lemma matchStep_cases:
  obtains
    (none) "loopChildren (drop (ttlCharsMatch index) key) (children (node index)) = None"
           "matchStep key index = index"
  | (partial) str c i where
      "loopChildren (drop (ttlCharsMatch index) key) (children (node index)) = Some (str, c, i)"
      "map_of (children (node index)) str = Some c"
      "i = loopChars (drop (ttlCharsMatch index) key) str" "0 < i" "i < length str"
      "matchStep key index = \<lparr>node = node index, nodeKey = str, charsMatch = i,
         ttlCharsMatch = ttlCharsMatch index + i, parents = parents index\<rparr>"
  | (full) str c where
      "loopChildren (drop (ttlCharsMatch index) key) (children (node index))
         = Some (str, c, length str)"
      "map_of (children (node index)) str = Some c"
      "loopChars (drop (ttlCharsMatch index) key) str = length str" "str \<noteq> []"
      "matchStep key index = \<lparr>node = c, nodeKey = str, charsMatch = length str,
         ttlCharsMatch = ttlCharsMatch index + length str, parents = parents index @ [str]\<rparr>"
proof (cases "loopChildren (drop (ttlCharsMatch index) key) (children (node index))")
  case None
  then show ?thesis using none by (simp add: matchStep_unfold)
next
  case (Some r)
  obtain str c i where r: "r = (str, c, i)" by (cases r)
  note s = Some[unfolded r]
  from loopChildren_Some[OF s]
  have m: "map_of (children (node index)) str = Some c"
    and i: "i = loopChars (drop (ttlCharsMatch index) key) str" and p: "0 < i"
    by auto
  have le: "i \<le> length str" unfolding i by (rule loopChars_le2)
  show ?thesis
  proof (cases "i = length str")
    case True
    then have ne: "str \<noteq> []" using p by auto
    have e: "loopChars (drop (ttlCharsMatch index) key) str = length str"
      using i True by simp
    show ?thesis
      using full[of str c, OF _ m e ne] s True by (simp add: matchStep_unfold)
  next
    case False
    then have "i < length str" using le by simp
    then show ?thesis
      using partial[of str c i] s m i p by (auto simp: matchStep_unfold)
  qed
qed

lemma full_match_take:
  assumes "loopChars (drop t key) str = length str" and "t \<le> length key"
  shows "take t key @ str = take (t + length str) key" and "t + length str \<le> length key"
proof -
  have "take (length str) (drop t key) = take (length str) str"
    using loopChars_take[of "drop t key" str] assms(1) by simp
  then have e: "take (length str) (drop t key) = str" by simp
  have "take (t + length str) key = take t key @ take (length str) (drop t key)"
    by (simp add: take_add)
  with e show "take t key @ str = take (t + length str) key" by simp
  have "length str \<le> length (drop t key)"
    using loopChars_le1[of "drop t key" str] assms(1) by simp
  with assms(2) show "t + length str \<le> length key" by simp
qed

lemma on_path_step:
  assumes op: "on_path key root index"
    and full: "charsMatch (matchStep key index) = length (nodeKey (matchStep key index))"
  shows "on_path key root (matchStep key index)"
proof (cases rule: matchStep_cases[of index key])
  case none
  then show ?thesis using op by simp
next
  case (partial str c i)
  then show ?thesis using full by simp
next
  case (full str c)
  from op have t: "ttlCharsMatch index \<le> length key" by (simp add: on_path_def)
  show ?thesis
    using op full full_match_take[OF full(3) t]
    by (simp add: on_path_def get_node_append)
qed

lemma descend_final:
  "on_path key root index \<Longrightarrow>
     \<exists>i0. on_path key root i0 \<and> descend key index = matchStep key i0
          \<and> \<not> keepGoing key i0 (matchStep key i0)"
proof (induction key index rule: descend.induct)
  case (1 key index)
  show ?case
  proof (cases "keepGoing key index (matchStep key index)")
    case True
    then have "on_path key root (matchStep key index)"
      using on_path_step[OF "1.prems"] by (simp add: keepGoing_def)
    from "1.IH"[OF refl _ this] True
    obtain i0 where "on_path key root i0"
      "descend key (matchStep key index) = matchStep key i0"
      "\<not> keepGoing key i0 (matchStep key i0)"
      by (auto simp: keepGoing_def)
    then show ?thesis using True by (subst descend_unfold) auto
  next
    case False
    then show ?thesis using "1.prems" by (subst descend_unfold) auto
  qed
qed

text \<open>The index handed to the handlers, in the three shapes it can have.\<close>

lemma descend_shapes:
  assumes F: "F = descend key (newIndex root)"
  obtains
    (stay) "on_path key root F"
      "loopChildren (drop (ttlCharsMatch F) key) (children (node F)) = None"
  | (partial) i0 str c i where "on_path key root i0"
      "map_of (children (node i0)) str = Some c"
      "i = loopChars (drop (ttlCharsMatch i0) key) str" "0 < i" "i < length str"
      "F = \<lparr>node = node i0, nodeKey = str, charsMatch = i,
         ttlCharsMatch = ttlCharsMatch i0 + i, parents = parents i0\<rparr>"
  | (full) "on_path key root F" "ttlCharsMatch F \<noteq> 0"
      "ttlCharsMatch F = length key \<or> leafCount (node F) = 0"
proof -
  from descend_final[OF on_path_newIndex, of key root] F
  obtain i0 where i0: "on_path key root i0" and Fm: "F = matchStep key i0"
    and stop: "\<not> keepGoing key i0 (matchStep key i0)" by auto
  show ?thesis
  proof (cases rule: matchStep_cases[of i0 key])
    case none
    then show ?thesis using stay i0 Fm by simp
  next
    case (partial str c i)
    then show ?thesis using that(2)[of i0 str c i] i0 Fm by simp
  next
    case (full str c)
    have op: "on_path key root F"
      unfolding Fm using on_path_step[OF i0] full by simp
    then have "ttlCharsMatch F \<le> length key" by (simp add: on_path_def)
    then have "ttlCharsMatch F = length key \<or> leafCount (node F) = 0"
      using stop full Fm by (auto simp: keepGoing_def)
    moreover have "ttlCharsMatch F \<noteq> 0" using full(4,5) Fm by simp
    ultimately show ?thesis using that(3) op by simp
  qed
qed

subsection \<open>Plain keys and plain trees\<close>

lemma contains_iff: "contains p xs \<longleftrightarrow> (\<exists>as bs. xs = as @ p @ bs)"
proof (induction xs)
  case Nil
  then show ?case by auto
next
  case (Cons x xs)
  show ?case
  proof
    assume "contains p (x # xs)"
    then consider "take (length p) (x # xs) = p" | "contains p xs" by auto
    then show "\<exists>as bs. x # xs = as @ p @ bs"
    proof cases
      case 1
      then have "x # xs = [] @ p @ drop (length p) (x # xs)"
        by (metis append_Nil append_take_drop_id)
      then show ?thesis by blast
    next
      case 2
      then obtain as bs where "xs = as @ p @ bs" using Cons.IH by blast
      then have "x # xs = (x # as) @ p @ bs" by simp
      then show ?thesis by blast
    qed
  next
    assume "\<exists>as bs. x # xs = as @ p @ bs"
    then obtain as bs where e: "x # xs = as @ p @ bs" by blast
    show "contains p (x # xs)"
    proof (cases as)
      case Nil
      then have "take (length p) (x # xs) = p" using e by simp
      then show ?thesis by simp
    next
      case (Cons a as')
      then have "xs = as' @ p @ bs" using e by simp
      then have "contains p xs" using Cons.IH by blast
      then show ?thesis by simp
    qed
  qed
qed

lemma plain_key_drop: "plain_key k \<Longrightarrow> plain_key (drop n k)"
proof -
  assume a: "plain_key k"
  have "contains p (drop n k) \<Longrightarrow> contains p k" for p
  proof -
    assume "contains p (drop n k)"
    then obtain as bs where "drop n k = as @ p @ bs" unfolding contains_iff by blast
    then have "k = (take n k @ as) @ p @ bs" by (metis append.assoc append_take_drop_id)
    then show "contains p k" unfolding contains_iff by blast
  qed
  then show ?thesis using a set_drop_subset[of n k] by (auto simp: plain_key_def)
qed

lemma plain_key_take: "plain_key k \<Longrightarrow> plain_key (take n k)"
proof -
  assume a: "plain_key k"
  have "contains p (take n k) \<Longrightarrow> contains p k" for p
  proof -
    assume "contains p (take n k)"
    then obtain as bs where "take n k = as @ p @ bs" unfolding contains_iff by blast
    then have "k = as @ p @ (bs @ drop n k)" by (metis append.assoc append_take_drop_id)
    then show "contains p k" unfolding contains_iff by blast
  qed
  then show ?thesis using a set_take_subset[of n k] by (auto simp: plain_key_def)
qed

lemma plain_key_not_dollar: "plain_key k \<Longrightarrow> k \<noteq> ''$''"
  by (auto simp: plain_key_def)

lemma plain_tree_alt:
  "plain_tree n = (\<forall>p \<in> set (children n). plain_key (fst p) \<and> plain_tree (snd p))"
  by (cases n) auto

lemma plain_tree_NodeI:
  "(\<And>p. p \<in> set cs \<Longrightarrow> plain_key (fst p) \<and> plain_tree (snd p)) \<Longrightarrow> plain_tree (Node cs d)"
  by fastforce

lemma plain_tree_child:
  "plain_tree n \<Longrightarrow> map_of (children n) k = Some c \<Longrightarrow> plain_key k \<and> plain_tree c"
  by (cases n) (auto dest: map_of_SomeD)

lemma plain_tree_get_node: "plain_tree root \<Longrightarrow> get_node p root = Some n \<Longrightarrow> plain_tree n"
proof (induction p arbitrary: root)
  case Nil then show ?case by simp
next
  case (Cons k ks)
  then show ?case by (auto split: option.splits dest: plain_tree_child)
qed

lemma plain_tree_no_dollar: "plain_tree n \<Longrightarrow> map_of (children n) ''$'' = None"
proof (rule ccontr)
  assume a: "plain_tree n" and "map_of (children n) ''$'' \<noteq> None"
  then obtain c where "map_of (children n) ''$'' = Some c" by auto
  from plain_tree_child[OF a this] show False by (simp add: plain_key_def)
qed

lemma plain_tree_leafCount: "plain_tree n \<Longrightarrow> leafCount n = length (children n)"
proof -
  assume a: "plain_tree n"
  have "filter (\<lambda>(k, c). k \<noteq> ''$'') (children n) = children n"
    using a by (auto simp: plain_tree_alt[of n] filter_id_conv plain_key_def)
  then show ?thesis by (simp add: leafCount_def)
qed

lemma putProp_plain: "k \<noteq> ''$'' \<Longrightarrow> putProp k c n = setChild k c n"
  by (simp add: putProp_def)

lemma delProp_plain: "k \<noteq> ''$'' \<Longrightarrow> delProp k n = deleteChild k n"
  by (simp add: delProp_def)

text \<open>The handlers on a node with no node under \<open>$\<close>.\<close>

lemma insertData_plain:
  "map_of (children (node index)) ''$'' = None \<Longrightarrow>
     insertData key dat index this =
       Inr (this\<lparr>tree := assign index
                     (Node (children (node index))
                        (Some (case dollar (node index) of
                                 None \<Rightarrow> [dat] | Some ds \<Rightarrow> ds @ [dat])))
                     (tree this),
                  dataCount := dataCount this + 1\<rparr>, [])"
  by (auto simp: insertData_def Let_def split: option.splits)

lemma removeData_plain:
  "map_of (children (node index)) ''$'' = None \<Longrightarrow>
   removeData stringify key dat index this =
     (let n = node index in
      case dat of
        None \<Rightarrow>
          (case dollar n of
             None \<Rightarrow> Inl TypeError
           | Some ds \<Rightarrow>
               (let n' = Node (children n) None;
                    this1 = this\<lparr>dataCount := dataCount this - Num (int (length ds)),
                                 tree := assign index n' (tree this),
                                 keywordCount := keywordCount this - 1\<rparr>
                in if isEmpty n'
                   then Inr (this1\<lparr>tree := removeEmptyParents (parents index) (tree this1)\<rparr>, [])
                   else Inr (this1, [])))
      | Some d \<Rightarrow>
          (case dollar n of
             None \<Rightarrow> Inl TypeError
           | Some ds \<Rightarrow>
               (let testData = stringify d;
                    arrlen = length ds;
                    i = loopData stringify testData ds
                in if i < arrlen then
                     (let ds' = take i ds @ drop (Suc i) ds;
                          this1 = this\<lparr>tree := assign index (Node (children n) (Some ds')) (tree this),
                                       dataCount := dataCount this - 1\<rparr>
                      in if length ds' = 0 then
                           (let n' = Node (children n) None;
                                this2 = this1\<lparr>tree := assign index n' (tree this1),
                                              keywordCount := keywordCount this1 - 1\<rparr>
                            in if isEmpty n'
                               then Inr (this2\<lparr>tree := removeEmptyParents (parents index) (tree this2)\<rparr>, [])
                               else Inr (this2, []))
                         else Inr (this1, []))
                   else Inr (this, [NoMatchingData key]))))"
  by (simp add: removeData_def Let_def split: option.splits)

text \<open>On a plain tree the descent stops after a full match at the end of the key or at a leaf.\<close>

lemma descend_shapes_plain:
  assumes F: "F = descend key (newIndex root)" and pt: "plain_tree root"
  obtains
    (stay) "on_path key root F"
      "loopChildren (drop (ttlCharsMatch F) key) (children (node F)) = None"
  | (partial) i0 str c i where "on_path key root i0"
      "map_of (children (node i0)) str = Some c"
      "i = loopChars (drop (ttlCharsMatch i0) key) str" "0 < i" "i < length str"
      "F = \<lparr>node = node i0, nodeKey = str, charsMatch = i,
         ttlCharsMatch = ttlCharsMatch i0 + i, parents = parents i0\<rparr>"
  | (full) "on_path key root F" "ttlCharsMatch F \<noteq> 0"
      "ttlCharsMatch F = length key \<or> children (node F) = []"
  using F
proof (cases rule: descend_shapes)
  case stay
  then show ?thesis using that(1) by simp
next
  case (partial i0 str c i)
  then show ?thesis using that(2) by simp
next
  case full
  have "plain_tree (node F)"
    using plain_tree_get_node[OF pt] full(1) by (auto simp: on_path_def)
  then have "leafCount (node F) = length (children (node F))" by (rule plain_tree_leafCount)
  then show ?thesis using that(3) full by auto
qed

subsection \<open>Removal failures\<close>

text \<open>
  C4. A remove call that reports a failure (a line of \<open>_removeError\<close>, or the line of
  \<open>_removeData\<close> for a value that is not in the list) leaves the tree and both
  counters as they were.
\<close>

theorem remove_failure_no_mutation:
  assumes "remove_rt stringify key dat this = Inr (this', msgs)" and "msgs \<noteq> []"
  shows "this' = this"
  using assms
  by (auto simp add: processResults_def remove_rt_def traverse_descend
        removeError_def removeData_def Let_def
        split: option.splits if_splits sum.splits)

theorem remove_failure_no_mutation_witness:
  "remove_rt stringify_nat ''zzz'' None emptyTree = Inr (emptyTree, [DoesntExist ''zzz''])
   \<and> [DoesntExist ''zzz''] \<noteq> [] \<and> (emptyTree :: nat RadixTree) = emptyTree"
proof -
  have r: "remove_rt stringify_nat ''zzz'' None emptyTree = Inr (emptyTree, [DoesntExist ''zzz''])"
    by code_simp
  have n: "[DoesntExist ''zzz''] \<noteq> []" by simp
  show ?thesis using r n remove_failure_no_mutation [OF r n] by simp
qed

text \<open>
  C2, at the input where the code departs from it: after \<open>insert("cart", 1)\<close> and
  \<open>insert("cast", 2)\<close> the node \<open>ca\<close> has two children and no \<open>$\<close> property, and
  \<open>remove("ca")\<close> raises a TypeError on \<open>index.node.$.length\<close>.
\<close>

theorem remove_dataless_node_raises:
  "remove_rt stringify_nat ''ca'' None
     (run stringify_nat [Insert ''cart'' 1, Insert ''cast'' 2] emptyTree) = Inl TypeError"
  by code_simp

subsection \<open>Counters\<close>

text \<open>
  C3, at the input where the code departs from it: \<open>insert("ca", 3)\<close> on the tree of
  \<open>cart\<close> and \<open>cast\<close> gives the node \<open>ca\<close> its data list through \<open>_insertData\<close>, which
  increments \<open>dataCount\<close> only: \<open>keywordCount\<close> is 2 and three nodes hold data
  (\<open>dataCount\<close> is 3, as the scan).
\<close>

theorem keywordCount_differs_from_scan:
  "keywordCount (run stringify_nat [Insert ''cart'' 1, Insert ''cast'' 2, Insert ''ca'' 3] emptyTree) = 2
   \<and> scanKeywords (tree (run stringify_nat [Insert ''cart'' 1, Insert ''cast'' 2, Insert ''ca'' 3] emptyTree)) = 3
   \<and> dataCount (run stringify_nat [Insert ''cart'' 1, Insert ''cast'' 2, Insert ''ca'' 3] emptyTree) = 3
   \<and> scanData (tree (run stringify_nat [Insert ''cart'' 1, Insert ''cast'' 2, Insert ''ca'' 3] emptyTree)) = 3"
  by code_simp

subsection \<open>The index of a split\<close>

lemma exists_state:
  assumes F: "F = descend key (newIndex root)"
    and ex: "ttlCharsMatch F \<noteq> 0" "charsMatch F \<noteq> length (nodeKey F)"
  shows "\<exists>old. map_of (children (node F)) (nodeKey F) = Some old"
    and "0 < charsMatch F" and "charsMatch F < length (nodeKey F)"
    and "charsMatch F \<le> ttlCharsMatch F" and "ttlCharsMatch F \<le> length key"
    and "charsMatch F = loopChars (drop (ttlCharsMatch F - charsMatch F) key) (nodeKey F)"
    and "get_node (parents F) root = Some (node F)"
    and "concat (parents F) = take (ttlCharsMatch F - charsMatch F) key"
proof -
  have "(\<exists>old. map_of (children (node F)) (nodeKey F) = Some old)
    \<and> 0 < charsMatch F \<and> charsMatch F < length (nodeKey F)
    \<and> charsMatch F \<le> ttlCharsMatch F \<and> ttlCharsMatch F \<le> length key
    \<and> charsMatch F = loopChars (drop (ttlCharsMatch F - charsMatch F) key) (nodeKey F)
    \<and> get_node (parents F) root = Some (node F)
    \<and> concat (parents F) = take (ttlCharsMatch F - charsMatch F) key"
    using F
  proof (cases rule: descend_shapes)
    case stay
    then show ?thesis using ex by (simp add: on_path_def)
  next
    case (partial i0 str c i)
    have "i \<le> length key - ttlCharsMatch i0"
      using loopChars_le1[of "drop (ttlCharsMatch i0) key" str] partial(3) by simp
    moreover have "ttlCharsMatch i0 \<le> length key" using partial(1) by (simp add: on_path_def)
    ultimately have "ttlCharsMatch i0 + i \<le> length key" by simp
    then show ?thesis using partial by (simp add: on_path_def)
  next
    case full
    then show ?thesis using ex by (simp add: on_path_def)
  qed
  then show "\<exists>old. map_of (children (node F)) (nodeKey F) = Some old"
    and "0 < charsMatch F" and "charsMatch F < length (nodeKey F)"
    and "charsMatch F \<le> ttlCharsMatch F" and "ttlCharsMatch F \<le> length key"
    and "charsMatch F = loopChars (drop (ttlCharsMatch F - charsMatch F) key) (nodeKey F)"
    and "get_node (parents F) root = Some (node F)"
    and "concat (parents F) = take (ttlCharsMatch F - charsMatch F) key"
    by blast+
qed


subsection \<open>The radix property\<close>

lemma radix_alt: "radix n = (radix_node (children n) \<and> (\<forall>p \<in> set (children n). radix (snd p)))"
  by (cases n) auto

lemma radix_node_iff:
  "radix_node cs \<longleftrightarrow> distinct (map fst cs) \<and> inj_on (take 1) (fst ` set cs)"
proof -
  have "map (\<lambda>(k, c). take 1 k) cs = map (take 1) (map fst cs)"
    by (induction cs) auto
  then have "radix_node cs = distinct (map (take 1) (map fst cs))"
    by (simp only: radix_node_def)
  then show ?thesis by (simp only: distinct_map set_map)
qed

lemma radix_node_keys: "map fst cs = map fst cs' \<Longrightarrow> radix_node cs = radix_node cs'"
proof -
  assume a: "map fst cs = map fst cs'"
  then have "set (map fst cs) = set (map fst cs')" by simp
  then have "fst ` set cs = fst ` set cs'" by (simp only: set_map)
  with a show ?thesis by (simp only: radix_node_iff)
qed

lemma map_fst_child:
  "map fst (map (\<lambda>(k', c). if k' = k then (k', g c) else (k', c)) cs) = map fst cs"
  by (induction cs) auto

lemma set_child_cases:
  assumes "p \<in> set (map (\<lambda>(k', c). if k' = k then (k', g c) else (k', c)) cs)"
  obtains c where "(fst p, c) \<in> set cs" "snd p = c \<or> (fst p = k \<and> snd p = g c)"
  using assms by (auto split: if_splits)

lemma radix_child: "radix n \<Longrightarrow> map_of (children n) k = Some c \<Longrightarrow> radix c"
  by (auto simp: radix_alt[of n] dest!: map_of_SomeD)

lemma radix_get_node: "radix root \<Longrightarrow> get_node p root = Some n \<Longrightarrow> radix n"
proof (induction p arbitrary: root)
  case Nil then show ?case by simp
next
  case (Cons k ks)
  then show ?case by (auto split: option.splits dest: radix_child)
qed

lemma radix_modify: "radix root \<Longrightarrow> radix n' \<Longrightarrow> radix (modify p (\<lambda>_. n') root)"
proof (induction p arbitrary: root)
  case Nil then show ?case by simp
next
  case (Cons k ks)
  let ?cs = "map (\<lambda>(k', c). if k' = k then (k', modify ks (\<lambda>_. n') c) else (k', c)) (children root)"
  have rn: "radix_node (children root)" and ch: "\<forall>p \<in> set (children root). radix (snd p)"
    using Cons.prems(1) by (simp_all add: radix_alt[of root])
  have "radix_node ?cs"
    using rn radix_node_keys[OF map_fst_child, of k _ "children root"] by simp
  moreover have "radix (snd p)" if "p \<in> set ?cs" for p
    using that
  proof (cases rule: set_child_cases)
    case (1 c)
    then have "radix c" using ch by force
    then show ?thesis using 1(2) Cons.IH[OF _ Cons.prems(2)] by auto
  qed
  ultimately have "radix (Node ?cs (dollar root))"
    unfolding radix_alt[of "Node ?cs (dollar root)"] node.sel by blast
  then show ?case by (simp only: modify.simps)
qed

lemma radix_removeEmptyParents: "radix root \<Longrightarrow> radix (removeEmptyParents p root)"
proof (induction p arbitrary: root)
  case Nil then show ?case by simp
next
  case (Cons k ks)
  let ?cs = "map (\<lambda>(k', c). if k' = k then (k', removeEmptyParents ks c) else (k', c)) (children root)"
  have rn: "radix_node (children root)" and ch: "\<forall>p \<in> set (children root). radix (snd p)"
    using Cons.prems(1) by (simp_all add: radix_alt[of root])
  have "radix_node ?cs"
    using rn radix_node_keys[OF map_fst_child, of k _ "children root"] by simp
  then have "radix_node (filter (\<lambda>(k, c). \<not> isEmpty c) ?cs)"
    unfolding radix_node_def by (rule distinct_map_filter)
  moreover have "radix (snd p)" if "p \<in> set (filter (\<lambda>(k, c). \<not> isEmpty c) ?cs)" for p
  proof -
    from that have "p \<in> set ?cs" by simp
    then show ?thesis
    proof (cases rule: set_child_cases)
      case (1 c)
      then have "radix c" using ch by force
      then show ?thesis using 1(2) Cons.IH by auto
    qed
  qed
  ultimately have "radix (deleteEmpty (Node ?cs (dollar root)))"
    unfolding deleteEmpty_def node.sel
      radix_alt[of "Node (filter (\<lambda>(k, c). \<not> isEmpty c) ?cs) (if dollar root = Some [] then None else dollar root)"]
    by blast
  then show ?case by (simp only: removeEmptyParents.simps)
qed

lemma take1_differs:
  assumes "loopChars l k = 0" and "k \<noteq> l"
  shows "take 1 k \<noteq> take 1 l"
proof -
  from assms(1) have "l = [] \<or> k = [] \<or> hd l \<noteq> hd k" by (simp add: loopChars_zero)
  then show ?thesis using assms(2) by (cases l; cases k) auto
qed

lemma radix_node_update_new:
  assumes "radix_node cs" and "\<And>k c. (k, c) \<in> set cs \<Longrightarrow> loopChars l k = 0"
  shows "radix_node (AList.update l v cs)"
proof -
  have d: "distinct (map fst cs)" and inj: "inj_on (take 1) (fst ` set cs)"
    using assms(1) by (simp_all add: radix_node_iff)
  have "take 1 l \<notin> take 1 ` (fst ` set cs - {l})"
  proof
    assume "take 1 l \<in> take 1 ` (fst ` set cs - {l})"
    then obtain k where k: "k \<in> fst ` set cs" "k \<noteq> l" "take 1 l = take 1 k" by auto
    from k(1) obtain c where "(k, c) \<in> set cs" by auto
    from take1_differs[OF assms(2)[OF this] k(2)] k(3) show False by simp
  qed
  then have "inj_on (take 1) (insert l (fst ` set cs))"
    using inj by (simp add: inj_on_insert)
  then show ?thesis
    using d by (simp add: radix_node_iff distinct_update dom_update)
qed

lemma radix_NodeI:
  "radix_node cs \<Longrightarrow> (\<And>p. p \<in> set cs \<Longrightarrow> radix (snd p)) \<Longrightarrow> radix (Node cs d)"
  by fastforce

lemma radix_dollar: "radix n \<Longrightarrow> radix (Node (children n) d)"
  by (cases n) simp

lemma set_update_subset: "set (AList.update k v al) \<subseteq> insert (k, v) (set al)"
  by (induction al) auto

lemma dom_delete: "fst ` set (AList.delete k al) = fst ` set al - {k}"
  by (induction al) auto

lemma set_delete_subset: "set (AList.delete k al) \<subseteq> set al"
  by (auto simp: AList.delete_eq)

lemma create_state:
  assumes F: "F = descend key (newIndex root)" and pt: "plain_tree root"
    and cls: "ttlCharsMatch F = 0
              \<or> (ttlCharsMatch F < length key \<and> charsMatch F = length (nodeKey F))"
  shows "on_path key root F"
    and "loopChildren (drop (ttlCharsMatch F) key) (children (node F)) = None"
proof -
  have "on_path key root F
        \<and> loopChildren (drop (ttlCharsMatch F) key) (children (node F)) = None"
    using F pt
  proof (cases rule: descend_shapes_plain)
    case stay
    then show ?thesis by simp
  next
    case (partial i0 str c i)
    then show ?thesis using cls by simp
  next
    case full
    then show ?thesis using cls by auto
  qed
  then show "on_path key root F"
    and "loopChildren (drop (ttlCharsMatch F) key) (children (node F)) = None"
    by simp_all
qed

lemma radix_setChild_new:
  assumes "radix n" and "loopChildren l (children n) = None" and "radix v"
  shows "radix (setChild l v n)"
  unfolding setChild_def
proof (rule radix_NodeI)
  show "radix_node (AList.update l v (children n))"
    using assms(1) loopChildren_None[OF assms(2)]
    by (intro radix_node_update_new) (auto simp: radix_alt[of n])
  fix p assume "p \<in> set (AList.update l v (children n))"
  then have "p = (l, v) \<or> p \<in> set (children n)" using set_update_subset by fastforce
  then show "radix (snd p)" using assms(1,3) by (auto simp: radix_alt[of n])
qed

lemma first_chars_differ:
  assumes cm: "cm = loopChars (drop t0 key) nk" and "cm < length nk" and "t0 + cm < length key"
  shows "take 1 (drop (t0 + cm) key) \<noteq> take 1 (drop cm nk)"
proof
  assume e: "take 1 (drop (t0 + cm) key) = take 1 (drop cm nk)"
  have a: "cm < length (drop t0 key)" using assms(3) by simp
  have "drop t0 key ! cm \<noteq> nk ! cm"
    using loopChars_differ[of "drop t0 key" nk] a assms(1,2) by simp
  moreover have "hd (drop cm (drop t0 key)) = drop t0 key ! cm"
    using a by (rule hd_drop_conv_nth)
  moreover have "hd (drop cm nk) = nk ! cm"
    using assms(2) by (rule hd_drop_conv_nth)
  moreover have "take 1 (drop cm (drop t0 key)) = take 1 (drop cm nk)"
    using e by (simp add: add.commute)
  moreover have "drop cm (drop t0 key) \<noteq> []" using a by simp
  moreover have "drop cm nk \<noteq> []" using assms(2) by simp
  ultimately show False
    by (cases "drop cm (drop t0 key)"; cases "drop cm nk") auto
qed

lemma radix_split:
  assumes r: "radix n" and old: "map_of (children n) nk = Some old"
    and tk: "take 1 tk = take 1 nk" "tk \<noteq> nk" and mid: "radix mid" "radix fresh"
  shows "radix (deleteChild nk (setChild tk mid (setChild tk fresh n)))"
  unfolding setChild_def deleteChild_def node.sel
proof (rule radix_NodeI)
  let ?cs = "AList.delete nk (AList.update tk mid (AList.update tk fresh (children n)))"
  have d: "distinct (map fst (children n))" and inj: "inj_on (take 1) (fst ` set (children n))"
    using r by (simp_all add: radix_alt[of n] radix_node_iff)
  have nk: "nk \<in> fst ` set (children n)"
    using old by (metis domI dom_map_of_conv_image_fst)
  have keys: "fst ` set ?cs = insert tk (fst ` set (children n)) - {nk}"
    by (simp add: dom_delete dom_update)
  have "inj_on (take 1) (insert tk (fst ` set (children n)) - {nk})"
    unfolding inj_on_def
  proof (intro ballI impI)
    fix a b
    assume a: "a \<in> insert tk (fst ` set (children n)) - {nk}"
      and b: "b \<in> insert tk (fst ` set (children n)) - {nk}"
      and e: "take 1 a = take 1 b"
    have *: "x = tk" if "x \<in> insert tk (fst ` set (children n)) - {nk}" "take 1 x = take 1 tk" for x
    proof (rule ccontr)
      assume "x \<noteq> tk"
      with that have "x \<in> fst ` set (children n)" "x \<noteq> nk" "take 1 x = take 1 nk"
        using tk(1) by auto
      with inj nk show False by (auto simp: inj_on_def)
    qed
    show "a = b"
    proof (cases "a = tk \<or> b = tk")
      case True
      then show ?thesis using *[OF a] *[OF b] e by auto
    next
      case False
      then show ?thesis using a b e inj by (auto simp: inj_on_def)
    qed
  qed
  then show "radix_node ?cs"
    using d keys by (simp add: radix_node_iff distinct_delete distinct_update)
  fix p assume "p \<in> set ?cs"
  then have "p \<in> set (AList.update tk mid (AList.update tk fresh (children n)))"
    using set_delete_subset by fastforce
  then have "p = (tk, mid) \<or> p \<in> set (AList.update tk fresh (children n))"
    using set_update_subset by fastforce
  then have "p = (tk, mid) \<or> p = (tk, fresh) \<or> p \<in> set (children n)"
    using set_update_subset by fastforce
  then show "radix (snd p)" using r mid by (auto simp: radix_alt[of n])
qed

lemma descend_ttl_le: "ttlCharsMatch (descend key (newIndex root)) \<le> length key"
proof -
  define F where "F = descend key (newIndex root)"
  have "ttlCharsMatch F \<le> length key"
    using F_def
  proof (cases rule: descend_shapes)
    case stay
    then show ?thesis by (simp add: on_path_def)
  next
    case (partial i0 str c i)
    have "i \<le> length key - ttlCharsMatch i0"
      using loopChars_le1[of "drop (ttlCharsMatch i0) key" str] partial(3) by simp
    moreover have "ttlCharsMatch i0 \<le> length key" using partial(1) by (simp add: on_path_def)
    ultimately show ?thesis using partial(6) by simp
  next
    case full
    then show ?thesis by (simp add: on_path_def)
  qed
  then show ?thesis by (simp add: F_def)
qed

lemma splitNode_eq:
  assumes old: "map_of (children (node F)) (nodeKey F) = Some old"
    and neq: "take (charsMatch F) (drop (ttlCharsMatch F - charsMatch F) key) \<noteq> nodeKey F"
    and nd: "take (charsMatch F) (drop (ttlCharsMatch F - charsMatch F) key) \<noteq> ''$''"
      "drop (charsMatch F) (nodeKey F) \<noteq> ''$''"
      "\<And>n. drop n key \<noteq> ''$''"
      "nodeKey F \<noteq> ''$''"
  shows "splitNode key dat F this =
     Inr (this\<lparr>tree := assign F
            (deleteChild (nodeKey F)
              (setChild (take (charsMatch F) (drop (ttlCharsMatch F - charsMatch F) key))
                (setChild (drop (charsMatch F) (nodeKey F)) old
                   (if ttlCharsMatch F = length key then Node [] (Some [dat])
                    else setChild (drop (ttlCharsMatch F) key) (Node [] (Some [dat])) (Node [] None)))
                (setChild (take (charsMatch F) (drop (ttlCharsMatch F - charsMatch F) key))
                   (if ttlCharsMatch F = length key then Node [] (Some [dat])
                    else setChild (drop (ttlCharsMatch F) key) (Node [] (Some [dat])) (Node [] None))
                   (node F))))
            (tree this),
          keywordCount := keywordCount this + 1,
          dataCount := dataCount this + 1\<rparr>, [])"
  using old neq nd
  by (simp add: splitNode_def Let_def putProp_plain delProp_plain setChild_def update_conv')

lemma radix_leaf: "radix (Node [] d)"
  by (simp add: radix_node_def)

text \<open>
  What a call does to a plain tree, for a plain key: the three outcomes of an insert and
  the four outcomes of a remove that returns.
\<close>

lemma insert_plain_cases:
  assumes pt: "plain_tree (tree this)" and pk: "processKey this key = Inr k"
    and plain: "plain_key k"
    and ins: "insert_rt key dat this = Inr (this', msgs)"
    and F: "F = descend k (newIndex (tree this))"
  obtains
    (create) "ttlCharsMatch F = 0
              \<or> (ttlCharsMatch F < length k \<and> charsMatch F = length (nodeKey F))"
      "tree this' = assign F
         (setChild (drop (ttlCharsMatch F) k) (Node [] (Some [dat])) (node F)) (tree this)"
  | (append) d' where "ttlCharsMatch F \<noteq> 0" "ttlCharsMatch F = length k"
      "charsMatch F = length (nodeKey F)" "d' \<noteq> []"
      "tree this' = assign F (Node (children (node F)) (Some d')) (tree this)"
  | (split) old where "ttlCharsMatch F \<noteq> 0" "charsMatch F \<noteq> length (nodeKey F)"
      "map_of (children (node F)) (nodeKey F) = Some old"
      "take (charsMatch F) (drop (ttlCharsMatch F - charsMatch F) k) \<noteq> nodeKey F"
      "tree this' = assign F
         (deleteChild (nodeKey F)
            (setChild (take (charsMatch F) (drop (ttlCharsMatch F - charsMatch F) k))
               (setChild (drop (charsMatch F) (nodeKey F)) old
                  (if ttlCharsMatch F = length k then Node [] (Some [dat])
                   else setChild (drop (ttlCharsMatch F) k) (Node [] (Some [dat])) (Node [] None)))
               (setChild (take (charsMatch F) (drop (ttlCharsMatch F - charsMatch F) k))
                  (if ttlCharsMatch F = length k then Node [] (Some [dat])
                   else setChild (drop (ttlCharsMatch F) k) (Node [] (Some [dat])) (Node [] None))
                  (node F))))
         (tree this)"
proof -
  have cons: "get_node (parents F) (tree this) = Some (node F)"
    unfolding F by (rule descend_newIndex_consistent)
  have ptF: "plain_tree (node F)" using plain_tree_get_node[OF pt cons] .
  have nd: "map_of (children (node F)) ''$'' = None" using ptF by (rule plain_tree_no_dollar)
  have le: "ttlCharsMatch F \<le> length k" unfolding F by (rule descend_ttl_le)
  have pr: "insert_rt key dat this = processResults k dat F
      \<lparr>nonExists = createNode, suffix = createNode, exact = insertData, exists = splitNode\<rparr> this"
    by (simp add: insert_rt_def traverse_descend pk F Let_def)
  have kd: "drop n k \<noteq> ''$''" for n
    using plain_key_drop[OF plain, of n] plain_key_not_dollar by blast
  consider (c) "ttlCharsMatch F = 0
              \<or> (ttlCharsMatch F < length k \<and> charsMatch F = length (nodeKey F))"
    | (e) "ttlCharsMatch F \<noteq> 0" "ttlCharsMatch F = length k"
              "charsMatch F = length (nodeKey F)"
    | (s) "ttlCharsMatch F \<noteq> 0" "charsMatch F \<noteq> length (nodeKey F)"
    using le by fastforce
  then show ?thesis
  proof cases
    case c
    have k0: "k \<noteq> ''$''" using kd[of 0] by simp
    have "insert_rt key dat this = createNode k dat F this"
      using c pr by (auto simp: processResults_def)
    then have "tree this' = assign F
         (setChild (drop (ttlCharsMatch F) k) (Node [] (Some [dat])) (node F)) (tree this)"
      using ins kd k0 by (auto simp: createNode_def Let_def putProp_plain)
    then show ?thesis using c create by blast
  next
    case e
    let ?d = "case dollar (node F) of None \<Rightarrow> [dat] | Some ds \<Rightarrow> ds @ [dat]"
    have "insert_rt key dat this = insertData k dat F this"
      using e pr by (auto simp: processResults_def)
    then have "tree this' = assign F (Node (children (node F)) (Some ?d)) (tree this)"
      using ins by (auto simp: insertData_plain[OF nd])
    moreover have "?d \<noteq> []" by (simp split: option.splits)
    ultimately show ?thesis using e append by blast
  next
    case s
    note st = exists_state[OF F s]
    from st(1) obtain old where old: "map_of (children (node F)) (nodeKey F) = Some old" by blast
    let ?tk = "take (charsMatch F) (drop (ttlCharsMatch F - charsMatch F) k)"
    have tk': "?tk = take (charsMatch F) (nodeKey F)"
      using loopChars_take[of "drop (ttlCharsMatch F - charsMatch F) k" "nodeKey F"] st(6) by simp
    have neq: "?tk \<noteq> nodeKey F"
      using tk' st(3) by (metis length_take min.absorb2 nat_less_le)
    have pnk: "plain_key (nodeKey F)" using plain_tree_child[OF ptF old] by simp
    have n1: "?tk \<noteq> ''$''"
      using plain_key_take[OF plain_key_drop[OF plain]] plain_key_not_dollar by blast
    have n2: "drop (charsMatch F) (nodeKey F) \<noteq> ''$''"
      using plain_key_drop[OF pnk] plain_key_not_dollar by blast
    have n4: "nodeKey F \<noteq> ''$''" using pnk by (rule plain_key_not_dollar)
    have "insert_rt key dat this = splitNode k dat F this"
      using s pr by (auto simp: processResults_def)
    then have "tree this' = assign F
         (deleteChild (nodeKey F)
            (setChild ?tk
               (setChild (drop (charsMatch F) (nodeKey F)) old
                  (if ttlCharsMatch F = length k then Node [] (Some [dat])
                   else setChild (drop (ttlCharsMatch F) k) (Node [] (Some [dat])) (Node [] None)))
               (setChild ?tk
                  (if ttlCharsMatch F = length k then Node [] (Some [dat])
                   else setChild (drop (ttlCharsMatch F) k) (Node [] (Some [dat])) (Node [] None))
                  (node F))))
         (tree this)"
      using ins unfolding splitNode_eq[OF old neq n1 n2 kd n4] by auto
    then show ?thesis using s old neq split by blast
  qed
qed

lemma remove_plain_cases:
  assumes pt: "plain_tree (tree this)" and pk: "processKey this key = Inr k"
    and rem: "remove_rt stringify key dat this = Inr (this', msgs)"
    and F: "F = descend k (newIndex (tree this))"
  obtains
    (same) "tree this' = tree this"
  | (shrink) ds' where "ds' \<noteq> []"
      "tree this' = assign F (Node (children (node F)) (Some ds')) (tree this)"
  | (emptied) "children (node F) \<noteq> []"
      "tree this' = assign F (Node (children (node F)) None) (tree this)"
  | (prune) "tree this' = removeEmptyParents (parents F) (assign F (Node [] None) (tree this))"
proof -
  have cons: "get_node (parents F) (tree this) = Some (node F)"
    unfolding F by (rule descend_newIndex_consistent)
  have ptF: "plain_tree (node F)" using plain_tree_get_node[OF pt cons] .
  have nd: "map_of (children (node F)) ''$'' = None" using ptF by (rule plain_tree_no_dollar)
  note rdef = removeData_plain[OF nd]
  have pr: "remove_rt stringify key dat this = processResults k dat F
      \<lparr>nonExists = removeError, suffix = removeError, exact = removeData stringify,
       exists = removeError\<rparr> this"
    by (simp add: remove_rt_def traverse_descend pk F Let_def)
  have "tree this' = tree this
        \<or> (\<exists>ds'. ds' \<noteq> [] \<and> tree this' = assign F (Node (children (node F)) (Some ds')) (tree this))
        \<or> (children (node F) \<noteq> [] \<and> tree this' = assign F (Node (children (node F)) None) (tree this))
        \<or> tree this' = removeEmptyParents (parents F) (assign F (Node [] None) (tree this))"
  proof (cases "ttlCharsMatch F \<noteq> 0 \<and> ttlCharsMatch F = length k
                 \<and> charsMatch F = length (nodeKey F)")
    case False
    then have "this' = this"
      using rem unfolding pr
      by (auto simp: processResults_def removeError_def split: if_splits)
    then show ?thesis by simp
  next
    case True
    then have rd: "removeData stringify k dat F this = Inr (this', msgs)"
      using rem unfolding pr by (auto simp: processResults_def)
    then obtain ds where ds: "dollar (node F) = Some ds"
      by (cases "dollar (node F)") (auto simp: rdef Let_def split: option.splits)
    show ?thesis
    proof (cases dat)
      case None
      then show ?thesis
        using rd ds
        by (cases "children (node F) = []")
           (auto simp: rdef Let_def assign_assign isEmpty_def)
    next
      case (Some d)
      define i where "i = loopData stringify (stringify d) ds"
      define ds' where "ds' = take i ds @ drop (Suc i) ds"
      show ?thesis
      proof (cases "i < length ds")
        case False
        then have "this' = this"
          using rd ds Some by (simp add: rdef Let_def i_def)
        then show ?thesis by simp
      next
        case True
        show ?thesis
        proof (cases "ds' = []")
          case False
          then have "tree this' = assign F (Node (children (node F)) (Some ds')) (tree this)"
            using rd ds Some True
            by (auto simp: rdef Let_def i_def[symmetric] ds'_def[symmetric])
          then show ?thesis using False by blast
        next
          case e: True
          then show ?thesis
            using rd ds Some True
            by (cases "children (node F) = []")
               (auto simp: rdef Let_def i_def[symmetric] ds'_def[symmetric]
                  assign_assign isEmpty_def)
        qed
      qed
    qed
  qed
  then show ?thesis using same shrink emptied prune by blast
qed

lemma radix_insert:
  assumes r: "radix (tree this)" and pt: "plain_tree (tree this)"
    and pk: "processKey this key = Inr k" and plain: "plain_key k"
    and ins: "insert_rt key dat this = Inr (this', msgs)"
  shows "radix (tree this')"
proof -
  define F where "F = descend k (newIndex (tree this))"
  have cons: "get_node (parents F) (tree this) = Some (node F)"
    unfolding F_def by (rule descend_newIndex_consistent)
  have rF: "radix (node F)" using radix_get_node[OF r cons] .
  have asg: "radix (assign F n' (tree this))" if "radix n'" for n'
    unfolding assign_def using r that by (rule radix_modify)
  have le: "ttlCharsMatch F \<le> length k" unfolding F_def by (rule descend_ttl_le)
  show ?thesis
    using pt pk plain ins F_def
  proof (cases rule: insert_plain_cases)
    case create
    have "radix (setChild (drop (ttlCharsMatch F) k) (Node [] (Some [dat])) (node F))"
      using rF create_state(2)[OF F_def pt create(1)] radix_leaf by (rule radix_setChild_new)
    then show ?thesis unfolding create(2) by (rule asg)
  next
    case (append d')
    show ?thesis unfolding append(5) using radix_dollar[OF rF] by (rule asg)
  next
    case (split old)
    note st = exists_state[OF F_def split(1,2)]
    note old = split(3) and neq = split(4)
    let ?tk = "take (charsMatch F) (drop (ttlCharsMatch F - charsMatch F) k)"
    let ?tik = "drop (charsMatch F) (nodeKey F)"
    let ?fresh = "if ttlCharsMatch F = length k then Node [] (Some [dat])
                    else setChild (drop (ttlCharsMatch F) k) (Node [] (Some [dat])) (Node [] None)"
    have tk': "?tk = take (charsMatch F) (nodeKey F)"
      using loopChars_take[of "drop (ttlCharsMatch F - charsMatch F) k" "nodeKey F"] st(6) by simp
    have t1: "take 1 ?tk = take 1 (nodeKey F)"
      using tk' st(2) by (simp add: take_take min_def)
    have rold: "radix old" using radix_child[OF rF old] .
    have rfresh: "radix ?fresh"
      by (auto simp: setChild_def radix_node_def)
    have rmid: "radix (setChild ?tik old ?fresh)"
    proof (cases "ttlCharsMatch F = length k")
      case True
      then show ?thesis using rold by (simp add: setChild_def radix_node_def)
    next
      case False
      then have "(ttlCharsMatch F - charsMatch F) + charsMatch F < length k" using st(4) le by simp
      from first_chars_differ[OF st(6) st(3) this]
      have "take 1 (drop (ttlCharsMatch F) k) \<noteq> take 1 ?tik" using st(4) by simp
      then show ?thesis using rold False by (auto simp: setChild_def radix_node_def)
    qed
    show ?thesis unfolding split(5)
      using radix_split[OF rF old t1 neq rmid rfresh] by (rule asg)
  qed
qed

lemma radix_remove:
  assumes r: "radix (tree this)" and pt: "plain_tree (tree this)"
    and pk: "processKey this key = Inr k"
    and rem: "remove_rt stringify key dat this = Inr (this', msgs)"
  shows "radix (tree this')"
proof -
  define F where "F = descend k (newIndex (tree this))"
  have cons: "get_node (parents F) (tree this) = Some (node F)"
    unfolding F_def by (rule descend_newIndex_consistent)
  have rF: "radix (node F)" using radix_get_node[OF r cons] .
  have asg: "radix (assign F (Node (children (node F)) d') (tree this))" for d'
    unfolding assign_def using r radix_dollar[OF rF] by (rule radix_modify)
  have asg0: "radix (assign F (Node [] None) (tree this))"
    unfolding assign_def using r radix_leaf by (rule radix_modify)
  show ?thesis
    using pt pk rem F_def
  proof (cases rule: remove_plain_cases)
    case same
    then show ?thesis using r by simp
  next
    case (shrink ds')
    then show ?thesis using asg by simp
  next
    case emptied
    then show ?thesis using asg by simp
  next
    case prune
    then show ?thesis using radix_removeEmptyParents[OF asg0] by simp
  qed
qed



subsection \<open>No empty node below the root\<close>

lemma clean_alt:
  "clean n = (dollar n \<noteq> Some [] \<and> (\<forall>p \<in> set (children n). \<not> isEmpty (snd p) \<and> clean (snd p)))"
  by (cases n) auto

lemma clean_NodeI:
  "d \<noteq> Some [] \<Longrightarrow> (\<And>p. p \<in> set cs \<Longrightarrow> \<not> isEmpty (snd p) \<and> clean (snd p)) \<Longrightarrow> clean (Node cs d)"
  by fastforce

lemma clean_child: "clean n \<Longrightarrow> map_of (children n) k = Some c \<Longrightarrow> clean c \<and> \<not> isEmpty c"
  by (auto simp: clean_alt[of n] dest!: map_of_SomeD)

lemma clean_get_node: "clean root \<Longrightarrow> get_node p root = Some n \<Longrightarrow> clean n"
proof (induction p arbitrary: root)
  case Nil then show ?case by simp
next
  case (Cons k ks)
  then show ?case by (auto split: option.splits dest: clean_child)
qed

lemma isEmpty_modify:
  "\<not> isEmpty n' \<Longrightarrow> \<not> isEmpty c \<Longrightarrow> \<not> isEmpty (modify p (\<lambda>_. n') c)"
  by (cases p) (auto simp: isEmpty_def)

lemma clean_modify:
  "clean root \<Longrightarrow> clean n' \<Longrightarrow> \<not> isEmpty n' \<Longrightarrow> clean (modify p (\<lambda>_. n') root)"
proof (induction p arbitrary: root)
  case Nil then show ?case by simp
next
  case (Cons k ks)
  let ?cs = "map (\<lambda>(k', c). if k' = k then (k', modify ks (\<lambda>_. n') c) else (k', c)) (children root)"
  have d: "dollar root \<noteq> Some []"
    and ch: "\<forall>p \<in> set (children root). \<not> isEmpty (snd p) \<and> clean (snd p)"
    using Cons.prems(1) by (simp_all add: clean_alt[of root])
  have "\<not> isEmpty (snd p) \<and> clean (snd p)" if "p \<in> set ?cs" for p
    using that
  proof (cases rule: set_child_cases)
    case (1 c)
    then have "\<not> isEmpty c \<and> clean c" using ch by force
    then show ?thesis
      using 1(2) Cons.IH[OF _ Cons.prems(2,3)] isEmpty_modify[OF Cons.prems(3)] by auto
  qed
  with d have "clean (Node ?cs (dollar root))" by (intro clean_NodeI) auto
  then show ?case by (simp only: modify.simps)
qed

lemma map_child_comp:
  "map (\<lambda>(k', c). if k' = k then (k', g c) else (k', c))
       (map (\<lambda>(k', c). if k' = k then (k', h c) else (k', c)) cs)
     = map (\<lambda>(k', c). if k' = k then (k', g (h c)) else (k', c)) cs"
  by (induction cs) auto

lemma clean_prune:
  "clean root \<Longrightarrow> clean (removeEmptyParents p (modify p (\<lambda>_. Node [] None) root))"
proof (induction p arbitrary: root)
  case Nil then show ?case by simp
next
  case (Cons k ks)
  let ?g = "\<lambda>c. removeEmptyParents ks (modify ks (\<lambda>_. Node [] None) c)"
  let ?cs = "map (\<lambda>(k', c). if k' = k then (k', ?g c) else (k', c)) (children root)"
  have d: "dollar root \<noteq> Some []"
    and ch: "\<forall>p \<in> set (children root). \<not> isEmpty (snd p) \<and> clean (snd p)"
    using Cons.prems(1) by (simp_all add: clean_alt[of root])
  have e: "removeEmptyParents (k # ks) (modify (k # ks) (\<lambda>_. Node [] None) root)
            = deleteEmpty (Node ?cs (dollar root))"
    by (simp only: modify.simps removeEmptyParents.simps node.sel map_child_comp)
  have "\<not> isEmpty (snd p) \<and> clean (snd p)"
    if "p \<in> set (filter (\<lambda>(k, c). \<not> isEmpty c) ?cs)" for p
  proof -
    from that have ne: "\<not> isEmpty (snd p)" by (simp add: case_prod_beta)
    from that have "p \<in> set ?cs" by simp
    then show ?thesis
    proof (cases rule: set_child_cases)
      case (1 c)
      then have "clean c" using ch by force
      then show ?thesis using 1(2) Cons.IH ne by auto
    qed
  qed
  with d have "clean (deleteEmpty (Node ?cs (dollar root)))"
    unfolding deleteEmpty_def node.sel by (intro clean_NodeI) auto
  then show ?case by (simp only: e)
qed

lemma clean_setChild:
  assumes "clean n" and "clean v" and "\<not> isEmpty v"
  shows "clean (setChild l v n)" and "\<not> isEmpty (setChild l v n)"
proof -
  have d: "dollar n \<noteq> Some []"
    and ch: "\<forall>p \<in> set (children n). \<not> isEmpty (snd p) \<and> clean (snd p)"
    using assms(1) by (simp_all add: clean_alt[of n])
  have "\<not> isEmpty (snd p) \<and> clean (snd p)" if "p \<in> set (AList.update l v (children n))" for p
  proof -
    from that have "p = (l, v) \<or> p \<in> set (children n)" using set_update_subset by fastforce
    then show ?thesis using ch assms(2,3) by auto
  qed
  with d show "clean (setChild l v n)" unfolding setChild_def by (intro clean_NodeI) auto
  show "\<not> isEmpty (setChild l v n)" by (simp add: setChild_def isEmpty_def)
qed

lemma clean_deleteChild: "clean n \<Longrightarrow> clean (deleteChild k n)"
proof -
  assume c: "clean n"
  have d: "dollar n \<noteq> Some []"
    and ch: "\<forall>p \<in> set (children n). \<not> isEmpty (snd p) \<and> clean (snd p)"
    using c by (simp_all add: clean_alt[of n])
  have "\<not> isEmpty (snd p) \<and> clean (snd p)" if "p \<in> set (AList.delete k (children n))" for p
    using that ch set_delete_subset by fastforce
  with d show ?thesis unfolding deleteChild_def by (intro clean_NodeI) auto
qed

lemma clean_dollar: "clean n \<Longrightarrow> d \<noteq> Some [] \<Longrightarrow> clean (Node (children n) d)"
  by (cases n) simp

lemma clean_leaf: "d \<noteq> Some [] \<Longrightarrow> clean (Node [] d)"
  by simp

lemma clean_insert:
  assumes r: "clean (tree this)" and pt: "plain_tree (tree this)"
    and pk: "processKey this key = Inr k" and plain: "plain_key k"
    and ins: "insert_rt key dat this = Inr (this', msgs)"
  shows "clean (tree this')"
proof -
  define F where "F = descend k (newIndex (tree this))"
  have cons: "get_node (parents F) (tree this) = Some (node F)"
    unfolding F_def by (rule descend_newIndex_consistent)
  have rF: "clean (node F)" using clean_get_node[OF r cons] .
  have asg: "clean (assign F n' (tree this))" if "clean n'" "\<not> isEmpty n'" for n'
    unfolding assign_def using r that by (rule clean_modify)
  have leaf: "clean (Node [] (Some [dat]))" "\<not> isEmpty (Node [] (Some [dat]))"
    by (simp_all add: isEmpty_def)
  show ?thesis
    using pt pk plain ins F_def
  proof (cases rule: insert_plain_cases)
    case create
    show ?thesis unfolding create(2)
      using clean_setChild[OF rF leaf] by (rule asg)
  next
    case (append d')
    show ?thesis unfolding append(5)
      using append(4) clean_dollar[OF rF, of "Some d'"] by (intro asg) (auto simp: isEmpty_def)
  next
    case (split old)
    note old = split(3) and neq = split(4)
    let ?tk = "take (charsMatch F) (drop (ttlCharsMatch F - charsMatch F) k)"
    let ?tik = "drop (charsMatch F) (nodeKey F)"
    let ?fresh = "if ttlCharsMatch F = length k then Node [] (Some [dat])
                    else setChild (drop (ttlCharsMatch F) k) (Node [] (Some [dat])) (Node [] None)"
    have cold: "clean old" "\<not> isEmpty old" using clean_child[OF rF old] by simp_all
    have cfresh: "clean ?fresh" "\<not> isEmpty ?fresh"
      using clean_setChild[OF clean_leaf[of None] leaf] leaf by auto
    note cmid = clean_setChild[OF cfresh(1) cold, of ?tik]
    note c1 = clean_setChild[OF rF cfresh, of ?tk]
    note c2 = clean_setChild[OF c1(1) cmid, of ?tk]
    let ?n3 = "deleteChild (nodeKey F) (setChild ?tk (setChild ?tik old ?fresh)
                (setChild ?tk ?fresh (node F)))"
    have c3: "clean ?n3" using c2(1) by (rule clean_deleteChild)
    have "map_of (children ?n3) ?tk \<noteq> None"
      using neq by (simp add: deleteChild_def setChild_def delete_conv' update_conv')
    then have ne3: "\<not> isEmpty ?n3" by (auto simp: isEmpty_def)
    show ?thesis unfolding split(5) using c3 ne3 by (rule asg)
  qed
qed

lemma clean_remove:
  assumes r: "clean (tree this)" and pt: "plain_tree (tree this)"
    and pk: "processKey this key = Inr k"
    and rem: "remove_rt stringify key dat this = Inr (this', msgs)"
  shows "clean (tree this')"
proof -
  define F where "F = descend k (newIndex (tree this))"
  have cons: "get_node (parents F) (tree this) = Some (node F)"
    unfolding F_def by (rule descend_newIndex_consistent)
  have rF: "clean (node F)" using clean_get_node[OF r cons] .
  have asg: "clean (assign F n' (tree this))" if "clean n'" "\<not> isEmpty n'" for n'
    unfolding assign_def using r that by (rule clean_modify)
  show ?thesis
    using pt pk rem F_def
  proof (cases rule: remove_plain_cases)
    case same
    then show ?thesis using r by simp
  next
    case (shrink ds')
    show ?thesis unfolding shrink(2)
      using shrink(1) clean_dollar[OF rF, of "Some ds'"] by (intro asg) (auto simp: isEmpty_def)
  next
    case emptied
    show ?thesis unfolding emptied(2)
      using emptied(1) clean_dollar[OF rF, of None] by (intro asg) (auto simp: isEmpty_def)
  next
    case prune
    show ?thesis unfolding prune assign_def using r by (rule clean_prune)
  qed
qed

subsection \<open>Trees built by calls with plain keys\<close>

lemma plain_tree_modify:
  "plain_tree root \<Longrightarrow> plain_tree n' \<Longrightarrow> plain_tree (modify p (\<lambda>_. n') root)"
proof (induction p arbitrary: root)
  case Nil then show ?case by simp
next
  case (Cons k ks)
  let ?cs = "map (\<lambda>(k', c). if k' = k then (k', modify ks (\<lambda>_. n') c) else (k', c)) (children root)"
  have ch: "\<forall>p \<in> set (children root). plain_key (fst p) \<and> plain_tree (snd p)"
    using Cons.prems(1) by (simp add: plain_tree_alt[of root])
  have "plain_key (fst p) \<and> plain_tree (snd p)" if "p \<in> set ?cs" for p
    using that
  proof (cases rule: set_child_cases)
    case (1 c)
    then have "plain_key (fst p) \<and> plain_tree c" using ch by force
    then show ?thesis using 1(2) Cons.IH[OF _ Cons.prems(2)] by auto
  qed
  then have "plain_tree (Node ?cs (dollar root))" by (rule plain_tree_NodeI)
  then show ?case by (simp only: modify.simps)
qed

lemma plain_tree_removeEmptyParents:
  "plain_tree root \<Longrightarrow> plain_tree (removeEmptyParents p root)"
proof (induction p arbitrary: root)
  case Nil then show ?case by simp
next
  case (Cons k ks)
  let ?cs = "map (\<lambda>(k', c). if k' = k then (k', removeEmptyParents ks c) else (k', c)) (children root)"
  have ch: "\<forall>p \<in> set (children root). plain_key (fst p) \<and> plain_tree (snd p)"
    using Cons.prems(1) by (simp add: plain_tree_alt[of root])
  have "plain_key (fst p) \<and> plain_tree (snd p)"
    if "p \<in> set (filter (\<lambda>(k, c). \<not> isEmpty c) ?cs)" for p
  proof -
    from that have "p \<in> set ?cs" by simp
    then show ?thesis
    proof (cases rule: set_child_cases)
      case (1 c)
      then have "plain_key (fst p) \<and> plain_tree c" using ch by force
      then show ?thesis using 1(2) Cons.IH by auto
    qed
  qed
  then have "plain_tree (deleteEmpty (Node ?cs (dollar root)))"
    unfolding deleteEmpty_def node.sel by (rule plain_tree_NodeI)
  then show ?case by (simp only: removeEmptyParents.simps)
qed

lemma plain_tree_setChild:
  assumes "plain_tree n" and "plain_key l" and "plain_tree v"
  shows "plain_tree (setChild l v n)"
  unfolding setChild_def
proof (rule plain_tree_NodeI)
  fix p assume "p \<in> set (AList.update l v (children n))"
  then have "p = (l, v) \<or> p \<in> set (children n)" using set_update_subset by fastforce
  then show "plain_key (fst p) \<and> plain_tree (snd p)"
    using assms by (auto simp: plain_tree_alt[of n])
qed

lemma plain_tree_deleteChild: "plain_tree n \<Longrightarrow> plain_tree (deleteChild k n)"
  unfolding deleteChild_def
proof (rule plain_tree_NodeI)
  fix p assume a: "plain_tree n" and "p \<in> set (AList.delete k (children n))"
  then have "p \<in> set (children n)" using set_delete_subset by fastforce
  then show "plain_key (fst p) \<and> plain_tree (snd p)"
    using a by (auto simp: plain_tree_alt[of n])
qed

lemma plain_tree_dollar: "plain_tree n \<Longrightarrow> plain_tree (Node (children n) d)"
  by (cases n) simp

lemma plain_tree_leaf: "plain_tree (Node [] d)"
  by simp

lemma plain_tree_insert:
  assumes pt: "plain_tree (tree this)"
    and pk: "processKey this key = Inr k" and plain: "plain_key k"
    and ins: "insert_rt key dat this = Inr (this', msgs)"
  shows "plain_tree (tree this')"
proof -
  define F where "F = descend k (newIndex (tree this))"
  have cons: "get_node (parents F) (tree this) = Some (node F)"
    unfolding F_def by (rule descend_newIndex_consistent)
  have pF: "plain_tree (node F)" using plain_tree_get_node[OF pt cons] .
  have asg: "plain_tree (assign F n' (tree this))" if "plain_tree n'" for n'
    unfolding assign_def using pt that by (rule plain_tree_modify)
  note pd = plain_key_drop[OF plain]
  show ?thesis
    using pt pk plain ins F_def
  proof (cases rule: insert_plain_cases)
    case create
    show ?thesis unfolding create(2)
      using plain_tree_setChild[OF pF pd plain_tree_leaf] by (rule asg)
  next
    case (append d')
    show ?thesis unfolding append(5) using plain_tree_dollar[OF pF] by (rule asg)
  next
    case (split old)
    note old = split(3)
    let ?tk = "take (charsMatch F) (drop (ttlCharsMatch F - charsMatch F) k)"
    let ?tik = "drop (charsMatch F) (nodeKey F)"
    let ?fresh = "if ttlCharsMatch F = length k then Node [] (Some [dat])
                    else setChild (drop (ttlCharsMatch F) k) (Node [] (Some [dat])) (Node [] None)"
    have po: "plain_key (nodeKey F)" "plain_tree old"
      using plain_tree_child[OF pF old] by simp_all
    have ptk: "plain_key ?tk" using plain_key_take[OF pd] .
    have ptik: "plain_key ?tik" using plain_key_drop[OF po(1)] .
    have pfresh: "plain_tree ?fresh"
      using plain_tree_setChild[OF plain_tree_leaf pd plain_tree_leaf] plain_tree_leaf by auto
    note pmid = plain_tree_setChild[OF pfresh ptik po(2)]
    note p1 = plain_tree_setChild[OF pF ptk pfresh]
    note p2 = plain_tree_setChild[OF p1 ptk pmid]
    show ?thesis unfolding split(5)
      using plain_tree_deleteChild[OF p2] by (rule asg)
  qed
qed

lemma plain_tree_remove:
  assumes pt: "plain_tree (tree this)"
    and pk: "processKey this key = Inr k"
    and rem: "remove_rt stringify key dat this = Inr (this', msgs)"
  shows "plain_tree (tree this')"
proof -
  define F where "F = descend k (newIndex (tree this))"
  have cons: "get_node (parents F) (tree this) = Some (node F)"
    unfolding F_def by (rule descend_newIndex_consistent)
  have pF: "plain_tree (node F)" using plain_tree_get_node[OF pt cons] .
  have asg: "plain_tree (assign F n' (tree this))" if "plain_tree n'" for n'
    unfolding assign_def using pt that by (rule plain_tree_modify)
  show ?thesis
    using pt pk rem F_def
  proof (cases rule: remove_plain_cases)
    case same
    then show ?thesis using pt by simp
  next
    case (shrink ds')
    show ?thesis unfolding shrink(2) using plain_tree_dollar[OF pF] by (rule asg)
  next
    case emptied
    show ?thesis unfolding emptied(2) using plain_tree_dollar[OF pF] by (rule asg)
  next
    case prune
    show ?thesis unfolding prune
      using asg[OF plain_tree_leaf] by (rule plain_tree_removeEmptyParents)
  qed
qed

lemma processKey_keySwap:
  "keySwap this' = keySwap this \<Longrightarrow> processKey this' key = processKey this key"
  by (simp add: processKey_def)

lemma insert_rt_keySwap: "insert_rt key dat this = Inr (this', msgs) \<Longrightarrow> keySwap this' = keySwap this"
  by (auto simp: insert_rt_def traverse_descend processResults_def createNode_def
        insertData_def splitNode_def Let_def split: sum.splits option.splits if_splits)

lemma remove_rt_keySwap:
  "remove_rt stringify key dat this = Inr (this', msgs) \<Longrightarrow> keySwap this' = keySwap this"
  by (auto simp: remove_rt_def traverse_descend processResults_def removeError_def
        removeData_def Let_def split: sum.splits option.splits if_splits)

lemma insert_rt_Inr: "insert_rt key dat this = Inr r \<Longrightarrow> \<exists>k. processKey this key = Inr k"
  by (cases "processKey this key") (auto simp: insert_rt_def)

lemma remove_rt_Inr: "remove_rt stringify key dat this = Inr r \<Longrightarrow> \<exists>k. processKey this key = Inr k"
  by (cases "processKey this key") (auto simp: remove_rt_def)

text \<open>
  One call with a plain key keeps the tree plain, radix and clean, and the key swap as it
  is; so does a sequence of them.
\<close>

lemma inv_apply_call:
  assumes pt: "plain_tree (tree this)" and ra: "radix (tree this)" and cl: "clean (tree this)"
    and pc: "plain_call this c"
  shows "plain_tree (tree (apply_call stringify this c))
         \<and> radix (tree (apply_call stringify this c))
         \<and> clean (tree (apply_call stringify this c))
         \<and> keySwap (apply_call stringify this c) = keySwap this"
proof (cases "exec stringify c this")
  case (Inl e)
  then show ?thesis using pt ra cl by (simp add: apply_call_def)
next
  case (Inr r)
  obtain this' msgs where r: "r = (this', msgs)" by (cases r)
  have a: "apply_call stringify this c = this'" using Inr r by (simp add: apply_call_def)
  show ?thesis
  proof (cases c)
    case (Insert key dat)
    then have ins: "insert_rt key dat this = Inr (this', msgs)" using Inr r by simp
    from insert_rt_Inr[OF ins] obtain k where pk: "processKey this key = Inr k" by blast
    have plain: "plain_key k" using pc pk Insert by (simp add: plain_call_def)
    show ?thesis unfolding a
      using plain_tree_insert[OF pt pk plain ins] radix_insert[OF ra pt pk plain ins]
        clean_insert[OF cl pt pk plain ins] insert_rt_keySwap[OF ins] by simp
  next
    case (Remove key dat)
    then have rem: "remove_rt stringify key dat this = Inr (this', msgs)" using Inr r by simp
    from remove_rt_Inr[OF rem] obtain k where pk: "processKey this key = Inr k" by blast
    show ?thesis unfolding a
      using plain_tree_remove[OF pt pk rem] radix_remove[OF ra pt pk rem]
        clean_remove[OF cl pt pk rem] remove_rt_keySwap[OF rem] by simp
  qed
qed

lemma plain_call_keySwap: "keySwap this' = keySwap this \<Longrightarrow> plain_call this' c = plain_call this c"
  by (simp add: plain_call_def processKey_def)

lemma inv_run:
  "plain_tree (tree this) \<Longrightarrow> radix (tree this) \<Longrightarrow> clean (tree this) \<Longrightarrow>
   list_all (plain_call this) calls \<Longrightarrow>
     plain_tree (tree (run stringify calls this))
     \<and> radix (tree (run stringify calls this))
     \<and> clean (tree (run stringify calls this))
     \<and> keySwap (run stringify calls this) = keySwap this"
proof (induction calls arbitrary: this)
  case Nil
  then show ?case by (simp add: run_def)
next
  case (Cons c calls)
  let ?t = "apply_call stringify this c"
  have pc: "plain_call this c" and rest: "list_all (plain_call this) calls"
    using Cons.prems(4) by simp_all
  note st = inv_apply_call[OF Cons.prems(1,2,3) pc, of stringify]
  have "list_all (plain_call ?t) calls"
    using rest st plain_call_keySwap[of ?t this] by (simp add: list_all_iff)
  from Cons.IH[OF _ _ _ this] st
  have "plain_tree (tree (run stringify calls ?t))
     \<and> radix (tree (run stringify calls ?t))
     \<and> clean (tree (run stringify calls ?t))
     \<and> keySwap (run stringify calls ?t) = keySwap ?t" by blast
  then show ?case using st by (simp add: run_def)
qed

lemma history_inv:
  assumes "list_all (plain_call (emptyTree\<lparr>keySwap := swap\<rparr>)) calls"
    and "T = run stringify calls (emptyTree\<lparr>keySwap := swap\<rparr>)"
  shows "plain_tree (tree T)" and "radix (tree T)" and "clean (tree T)" and "keySwap T = swap"
proof -
  have "plain_tree (tree (emptyTree\<lparr>keySwap := swap\<rparr>))"
    "radix (tree (emptyTree\<lparr>keySwap := swap\<rparr>))"
    "clean (tree (emptyTree\<lparr>keySwap := swap\<rparr>))"
    by (simp_all add: emptyTree_def radix_node_def)
  from inv_run[OF this assms(1), of stringify]
  show "plain_tree (tree T)" and "radix (tree T)" and "clean (tree T)" and "keySwap T = swap"
    unfolding assms(2) by simp_all
qed

subsection \<open>The radix property of the trees built with plain keys\<close>




subsection \<open>Splitting an edge\<close>




subsection \<open>Removal of one value\<close>





subsection \<open>Insert, then remove\<close>

lemma matchStep_parents: "\<exists>sfx. parents (matchStep key index) = parents index @ sfx"
  by (cases rule: matchStep_cases[of index key]) auto

lemma descend_parents_prefix: "\<exists>sfx. parents (descend key index) = parents index @ sfx"
proof (induction key index rule: descend.induct)
  case (1 key index)
  show ?case
  proof (cases "keepGoing key index (matchStep key index)")
    case True
    then obtain s1 where "parents (descend key (matchStep key index)) = parents (matchStep key index) @ s1"
      using "1.IH"[OF refl] by (auto simp: keepGoing_def)
    moreover obtain s2 where "parents (matchStep key index) = parents index @ s2"
      using matchStep_parents by blast
    ultimately show ?thesis using True by (subst descend_unfold) simp
  next
    case False
    then show ?thesis using matchStep_parents[of key index] by (subst descend_unfold) simp
  qed
qed

lemma loopChildren_map_child:
  "loopChildren t (map (\<lambda>(k', c). if k' = k then (k', h c) else (k', c)) cs)
     = map_option (\<lambda>(s, c, i). (s, if s = k then h c else c, i)) (loopChildren t cs)"
  by (induction cs) (auto simp: Let_def)

lemma loopChildren_append_None:
  "loopChildren t cs = None \<Longrightarrow> loopChildren t (cs @ cs') = loopChildren t cs'"
  by (induction cs) (auto simp: Let_def split: if_splits)

lemma update_append_new: "l \<notin> fst ` set cs \<Longrightarrow> AList.update l v cs = cs @ [(l, v)]"
  by (induction cs) auto

lemma descend_hit:
  assumes hit: "loopChildren (drop (ttlCharsMatch index) key) (children (node index))
           = Some (drop (ttlCharsMatch index) key, c, length (drop (ttlCharsMatch index) key))"
    and lt: "ttlCharsMatch index < length key"
  shows "descend key index =
           \<lparr>node = c, nodeKey = drop (ttlCharsMatch index) key,
            charsMatch = length key - ttlCharsMatch index, ttlCharsMatch = length key,
            parents = parents index @ [drop (ttlCharsMatch index) key]\<rparr>"
proof -
  have m: "matchStep key index =
           \<lparr>node = c, nodeKey = drop (ttlCharsMatch index) key,
            charsMatch = length key - ttlCharsMatch index, ttlCharsMatch = length key,
            parents = parents index @ [drop (ttlCharsMatch index) key]\<rparr>"
    using hit lt by (simp add: matchStep_unfold)
  show ?thesis
    by (subst descend_unfold) (simp add: m keepGoing_def)
qed

lemma leafCount_labels:
  "leafCount n = length (filter (\<lambda>k. k \<noteq> ''$'') (map fst (children n)))"
  by (simp add: leafCount_def filter_map comp_def case_prod_unfold)

lemma leafCount_modify:
  assumes b: "leafCount n' \<noteq> 0" and a: "leafCount c \<noteq> 0"
  shows "leafCount (modify p (\<lambda>_. n') c) \<noteq> 0"
proof (cases p)
  case Nil
  then show ?thesis using b by simp
next
  case (Cons a list)
  have "map fst (children (modify p (\<lambda>_. n') c)) = map fst (children c)"
    unfolding Cons by (simp only: modify.simps node.sel map_fst_child)
  then have "leafCount (modify p (\<lambda>_. n') c) = leafCount c"
    by (simp only: leafCount_labels)
  then show ?thesis using a by simp
qed

lemma descend_replaced:
  assumes "F = descend key index"
    and "charsMatch F = length (nodeKey F)"
    and "ttlCharsMatch F < length key"
    and "parents F = parents index @ sfx"
    and "loopChildren (drop (ttlCharsMatch F) key) (children n')
           = Some (drop (ttlCharsMatch F) key, c', length (drop (ttlCharsMatch F) key))"
    and "drop (ttlCharsMatch F) key \<noteq> ''$''"
  shows "descend key (index\<lparr>node := modify sfx (\<lambda>_. n') (node index)\<rparr>) =
           \<lparr>node = c', nodeKey = drop (ttlCharsMatch F) key,
            charsMatch = length key - ttlCharsMatch F, ttlCharsMatch = length key,
            parents = parents F @ [drop (ttlCharsMatch F) key]\<rparr>"
  using assms
proof (induction key index arbitrary: sfx rule: descend.induct)
  case (1 key index)
  note F = "1.prems"(1) and full = "1.prems"(2) and lt = "1.prems"(3)
    and par = "1.prems"(4) and hit = "1.prems"(5) and nd = "1.prems"(6)
  have lc: "leafCount n' \<noteq> 0"
  proof -
    from loopChildren_Some[OF hit]
    have "map_of (children n') (drop (ttlCharsMatch F) key) = Some c'" by simp
    then have "(drop (ttlCharsMatch F) key, c') \<in> set (children n')" by (rule map_of_SomeD)
    then have "drop (ttlCharsMatch F) key \<in> set (filter (\<lambda>k. k \<noteq> ''$'') (map fst (children n')))"
      using nd by force
    then show ?thesis unfolding leafCount_labels by (metis length_0_conv empty_iff list.set(1))
  qed
  show ?case
  proof (cases rule: matchStep_cases[of index key])
    case none
    then have Fi: "F = index" using F by (subst (asm) descend_unfold) (simp add: keepGoing_def)
    then have "sfx = []" using par by simp
    then show ?thesis
      using descend_hit[of "index\<lparr>node := n'\<rparr>" key c'] hit lt Fi by simp
  next
    case (partial str c i)
    then have "F = matchStep key index"
      using F by (subst (asm) descend_unfold) (simp add: keepGoing_def)
    then show ?thesis using partial full by simp
  next
    case (full str c)
    let ?i' = "matchStep key index"
    show ?thesis
    proof (cases "keepGoing key index ?i'")
      case True
      then have F': "F = descend key ?i'" using F by (subst (asm) descend_unfold) simp
      obtain s1 where s1: "parents F = parents ?i' @ s1"
        using descend_parents_prefix[of key ?i'] F' by auto
      then have sfx: "sfx = str # s1" using par full(5) by simp
      have ih: "descend key (?i'\<lparr>node := modify s1 (\<lambda>_. n') (node ?i')\<rparr>) =
           \<lparr>node = c', nodeKey = drop (ttlCharsMatch F) key,
            charsMatch = length key - ttlCharsMatch F, ttlCharsMatch = length key,
            parents = parents F @ [drop (ttlCharsMatch F) key]\<rparr>"
        using "1.IH"[OF refl _ F' "1.prems"(2) lt s1 hit nd] True by (simp add: keepGoing_def)
      let ?index2 = "index\<lparr>node := modify sfx (\<lambda>_. n') (node index)\<rparr>"
      have m2: "matchStep key ?index2 = ?i'\<lparr>node := modify s1 (\<lambda>_. n') c\<rparr>"
        using full(1) by (simp add: matchStep_unfold sfx loopChildren_map_child full(5))
      have "leafCount c \<noteq> 0" using True full(5) by (simp add: keepGoing_def)
      then have "leafCount (modify s1 (\<lambda>_. n') c) \<noteq> 0" using lc by (intro leafCount_modify)
      then have kg: "keepGoing key ?index2 (matchStep key ?index2)"
        using True unfolding m2 by (simp add: keepGoing_def full(5))
      show ?thesis
        using kg ih by (subst descend_unfold) (simp add: m2 full(5))
    next
      case False
      then have Fi: "F = ?i'" using F by (subst (asm) descend_unfold) simp
      then have sfx: "sfx = [str]" using par full(5) by simp
      let ?index2 = "index\<lparr>node := modify sfx (\<lambda>_. n') (node index)\<rparr>"
      have m2: "matchStep key ?index2 = ?i'\<lparr>node := n'\<rparr>"
        using full(1) by (simp add: matchStep_unfold sfx loopChildren_map_child full(5))
      have kg: "keepGoing key ?index2 (matchStep key ?index2)"
        using lt lc full(4) unfolding m2 Fi by (simp add: keepGoing_def full(5))
      have "descend key (?i'\<lparr>node := n'\<rparr>) =
           \<lparr>node = c', nodeKey = drop (ttlCharsMatch F) key,
            charsMatch = length key - ttlCharsMatch F, ttlCharsMatch = length key,
            parents = parents F @ [drop (ttlCharsMatch F) key]\<rparr>"
        using descend_hit[of "?i'\<lparr>node := n'\<rparr>" key c'] hit lt Fi by simp
      then show ?thesis
        using kg by (subst descend_unfold) (simp add: m2)
    qed
  qed
qed

lemma deleteEmpty_clean: "clean n \<Longrightarrow> deleteEmpty n = n"
proof -
  assume c: "clean n"
  then have "filter (\<lambda>(k, c). \<not> isEmpty c) (children n) = children n"
    by (auto simp: clean_alt[of n] intro!: filter_True)
  moreover have "dollar n \<noteq> Some []" using c by (simp add: clean_alt[of n])
  ultimately show ?thesis by (cases n) (simp add: deleteEmpty_def)
qed

lemma map_child_id:
  "(\<And>c. (k, c) \<in> set cs \<Longrightarrow> g c = c) \<Longrightarrow>
     map (\<lambda>(k', c). if k' = k then (k', g c) else (k', c)) cs = cs"
  by (induction cs) auto

lemma prune_after_create:
  assumes "clean root" and "radix root" and "get_node p root = Some n"
    and "l \<notin> fst ` set (children n)"
  shows "removeEmptyParents (p @ [l])
           (modify (p @ [l]) (\<lambda>_. Node [] None) (modify p (\<lambda>_. setChild l v n) root)) = root"
  using assms
proof (induction p arbitrary: root)
  case Nil
  obtain cs d where n: "n = Node cs d" by (cases n)
  have rn: "root = Node cs d" using Nil.prems(3) n by simp
  have ne: "filter (\<lambda>(k, c). \<not> isEmpty c) cs = cs"
    using Nil.prems(1) rn by (auto intro!: filter_True)
  have d: "d \<noteq> Some []" using Nil.prems(1) rn by simp
  have U: "map (\<lambda>(k', c). if k' = l then (k', g c) else (k', c)) cs = cs"
    for g :: "'a node \<Rightarrow> 'a node"
    using Nil.prems(4) n by (intro map_child_id) force
  have s: "setChild l v n = Node (cs @ [(l, v)]) d"
    using Nil.prems(4) n by (simp add: setChild_def update_append_new)
  have m: "modify ([] @ [l]) (\<lambda>_. Node [] None) (Node (cs @ [(l, v)]) d)
             = Node (cs @ [(l, Node [] None)]) d"
    by (simp add: U)
  have r: "removeEmptyParents ([] @ [l]) (Node (cs @ [(l, Node [] None)]) d)
             = deleteEmpty (Node (cs @ [(l, Node [] None)]) d)"
    by (simp add: U)
  have e: "deleteEmpty (Node (cs @ [(l, Node [] None)]) d) = Node cs d"
    using ne d by (simp add: deleteEmpty_def isEmpty_def)
  show ?case
    unfolding modify.simps(1) s m r e rn ..
next
  case (Cons k ks)
  from Cons.prems(3) obtain c where c: "map_of (children root) k = Some c"
    and g: "get_node ks c = Some n" by (auto split: option.splits)
  have cc: "clean c" using clean_child[OF Cons.prems(1) c] by simp
  have rc: "radix c" using radix_child[OF Cons.prems(2) c] .
  have dist: "distinct (map fst (children root))"
    using Cons.prems(2) by (simp add: radix_alt[of root] radix_node_iff)
  let ?G = "\<lambda>c. removeEmptyParents (ks @ [l])
              (modify (ks @ [l]) (\<lambda>_. Node [] None) (modify ks (\<lambda>_. setChild l v n) c))"
  have ih: "?G c = c" using Cons.IH[OF cc rc g Cons.prems(4)] .
  have "?G c' = c'" if "(k, c') \<in> set (children root)" for c'
  proof -
    from that dist have "map_of (children root) k = Some c'" by simp
    with c ih show ?thesis by simp
  qed
  then have "map (\<lambda>(k', c). if k' = k then (k', ?G c) else (k', c)) (children root) = children root"
    by (rule map_child_id)
  then have "removeEmptyParents ((k # ks) @ [l])
           (modify ((k # ks) @ [l]) (\<lambda>_. Node [] None) (modify (k # ks) (\<lambda>_. setChild l v n) root))
        = deleteEmpty (Node (children root) (dollar root))"
    by (simp only: append_Cons modify.simps removeEmptyParents.simps node.sel map_child_comp)
  then show ?case using deleteEmpty_clean[OF Cons.prems(1)] by simp
qed

text \<open>
  C1 as the spec states it fails: on the tree that holds \<open>cart\<close>, \<open>insert("cast", 2)\<close>
  splits the edge \<open>cart\<close> and \<open>remove("cast")\<close> prunes the leaf \<open>st\<close> only; the
  node \<open>ca\<close> stays, with the one child \<open>rt\<close>, and nothing merges it back.
\<close>

theorem round_trip_counterexample:
  "\<not> (tree (run stringify_nat [Insert ''cast'' 2, Remove ''cast'' None]
              (run stringify_nat [Insert ''cart'' 1] emptyTree))
        = tree (run stringify_nat [Insert ''cart'' 1] emptyTree)
      \<and> keywordCount (run stringify_nat [Insert ''cast'' 2, Remove ''cast'' None]
              (run stringify_nat [Insert ''cart'' 1] emptyTree))
        = keywordCount (run stringify_nat [Insert ''cart'' 1] emptyTree)
      \<and> dataCount (run stringify_nat [Insert ''cast'' 2, Remove ''cast'' None]
              (run stringify_nat [Insert ''cart'' 1] emptyTree))
        = dataCount (run stringify_nat [Insert ''cart'' 1] emptyTree))"
  by code_simp

text \<open>
  C1, amended. On a tree built from a new one by insert and remove calls with keys that,
  once processed, hold no \<open>$\<close> and nowhere \<open>__proto__\<close>, for a key that
  \<open>_processKey\<close> accepts and that, once processed, is not empty, holds no \<open>$\<close> and
  nowhere \<open>__proto__\<close>, and whose traversal classifies as non-existent or suffix, so
  that insert adds it as a new leaf: \<open>insert(key, v)\<close> followed by \<open>remove(key)\<close>
  with no value gives back the object as it was, the tree and both counters.
\<close>

theorem insert_remove_round_trip:
  assumes calls: "list_all (plain_call (emptyTree\<lparr>keySwap := swap\<rparr>)) calls"
    and T: "T = run stringify calls (emptyTree\<lparr>keySwap := swap\<rparr>)"
    and pk: "processKey T key = Inr k" and plain: "plain_key k"
    and ne: "k \<noteq> []"
    and F: "F = descend k (newIndex (tree T))"
    and cls: "ttlCharsMatch F = 0
              \<or> (ttlCharsMatch F < length k \<and> charsMatch F = length (nodeKey F))"
  shows "\<exists>T1. insert_rt key v T = Inr (T1, [])
              \<and> remove_rt stringify key None T1 = Inr (T, [])"
proof -
  define l where "l = drop (ttlCharsMatch F) k"
  define leaf where "leaf = Node [] (Some [v])"
  define n' where "n' = setChild l leaf (node F)"
  define T1 where "T1 = T\<lparr>tree := assign F n' (tree T),
                           keywordCount := keywordCount T + 1,
                           dataCount := dataCount T + 1\<rparr>"
  note inv = history_inv[OF calls T]
  note pt = inv(1) and ra = inv(2) and cl = inv(3)
  note cs = create_state[OF F pt cls]
  have cons: "get_node (parents F) (tree T) = Some (node F)"
    and full: "charsMatch F = length (nodeKey F)"
    using cs(1) by (simp_all add: on_path_def)
  have lt: "ttlCharsMatch F < length k" using cls ne by auto
  then have lne: "l \<noteq> []" by (simp add: l_def)
  have lnd: "drop (ttlCharsMatch F) k \<noteq> ''$''"
    using plain_key_drop[OF plain] plain_key_not_dollar by blast
  have k0: "k \<noteq> ''$''" using plain by (rule plain_key_not_dollar)
  have none: "loopChildren l (children (node F)) = None" using cs(2) by (simp add: l_def)
  have notin: "l \<notin> fst ` set (children (node F))"
  proof
    assume "l \<in> fst ` set (children (node F))"
    then obtain c where "(l, c) \<in> set (children (node F))" by auto
    from loopChildren_None[OF none this] lne show False by (simp add: loopChars_self)
  qed
  have ins: "insert_rt key v T = Inr (T1, [])"
  proof -
    have "insert_rt key v T = processResults k v F
      \<lparr>nonExists = createNode, suffix = createNode, exact = insertData, exists = splitNode\<rparr> T"
      by (simp add: insert_rt_def pk traverse_descend Let_def F)
    then have "insert_rt key v T = createNode k v F T"
      using cls by (auto simp: processResults_def)
    then show ?thesis
      using lnd k0 by (simp add: createNode_def Let_def putProp_plain T1_def n'_def l_def leaf_def)
  qed
  have hit: "loopChildren (drop (ttlCharsMatch F) k) (children n')
           = Some (drop (ttlCharsMatch F) k, leaf, length (drop (ttlCharsMatch F) k))"
    using none lne notin
    by (simp add: n'_def setChild_def update_append_new loopChildren_append_None
          l_def[symmetric] loopChars_self)
  have par: "parents F = parents (newIndex (tree T)) @ parents F" by (simp add: newIndex_def)
  have d2: "descend k (newIndex (tree T1)) =
           \<lparr>node = leaf, nodeKey = l, charsMatch = length k - ttlCharsMatch F,
            ttlCharsMatch = length k, parents = parents F @ [l]\<rparr>"
    using descend_replaced[OF F full lt par hit lnd]
    by (simp add: newIndex_def T1_def assign_def l_def)
  let ?F2 = "\<lparr>node = leaf, nodeKey = l, charsMatch = length k - ttlCharsMatch F,
            ttlCharsMatch = length k, parents = parents F @ [l]\<rparr>"
  have k1: "processKey T1 key = Inr k"
    using pk processKey_keySwap[of T1 T key] by (simp add: T1_def)
  have "remove_rt stringify key None T1 = processResults k None ?F2
      \<lparr>nonExists = removeError, suffix = removeError, exact = removeData stringify,
       exists = removeError\<rparr> T1"
    by (simp add: remove_rt_def traverse_descend Let_def k1 d2)
  also have "\<dots> = removeData stringify k None ?F2 T1"
    using lt by (auto simp: processResults_def l_def)
  also have "\<dots> = Inr (T1\<lparr>dataCount := dataCount T1 - 1,
                            tree := removeEmptyParents (parents F @ [l])
                                      (assign ?F2 (Node [] None) (tree T1)),
                            keywordCount := keywordCount T1 - 1\<rparr>, [])"
    by (simp add: removeData_def Let_def leaf_def isEmpty_def)
  also have "removeEmptyParents (parents F @ [l]) (assign ?F2 (Node [] None) (tree T1)) = tree T"
    using prune_after_create[OF cl ra cons notin, of leaf]
    by (simp add: assign_def T1_def n'_def)
  also have "T1\<lparr>dataCount := dataCount T1 - 1, tree := tree T,
                 keywordCount := keywordCount T1 - 1\<rparr> = T"
    by (simp add: T1_def jsnum_inc_dec)
  finally show ?thesis using ins by blast
qed

theorem insert_remove_round_trip_witness:
  "list_all (plain_call (emptyTree\<lparr>keySwap := None\<rparr>)) [Insert ''car'' (1::nat), Insert ''cart'' 2]
   \<and> processKey (run stringify_nat [Insert ''car'' 1, Insert ''cart'' 2]
                   (emptyTree\<lparr>keySwap := None\<rparr>)) ''Card Game'' = Inr ''card_game''
   \<and> plain_key ''card_game''
   \<and> descend ''card_game'' (newIndex (tree (run stringify_nat [Insert ''car'' 1, Insert ''cart'' 2]
                               (emptyTree\<lparr>keySwap := None\<rparr>))))
       = \<lparr>node = Node [(''t'', Node [] (Some [2]))] (Some [1]), nodeKey = ''car'',
          charsMatch = 3, ttlCharsMatch = 3, parents = [''car'']\<rparr>
   \<and> (\<exists>T1. insert_rt ''Card Game'' 3 (run stringify_nat [Insert ''car'' 1, Insert ''cart'' 2]
                               (emptyTree\<lparr>keySwap := None\<rparr>)) = Inr (T1, [])
         \<and> remove_rt stringify_nat ''Card Game'' None T1
             = Inr (run stringify_nat [Insert ''car'' 1, Insert ''cart'' 2]
                               (emptyTree\<lparr>keySwap := None\<rparr>), []))"
proof -
  let ?calls = "[Insert ''car'' (1::nat), Insert ''cart'' 2]"
  let ?T = "run stringify_nat ?calls (emptyTree\<lparr>keySwap := None\<rparr>)"
  let ?F = "\<lparr>node = Node [(''t'', Node [] (Some [2::nat]))] (Some [1]), nodeKey = ''car'',
          charsMatch = 3, ttlCharsMatch = 3, parents = [''car'']\<rparr>"
  have c: "list_all (plain_call (emptyTree\<lparr>keySwap := None\<rparr>)) ?calls" by code_simp
  have k: "processKey ?T ''Card Game'' = Inr ''card_game''" by code_simp
  have p: "plain_key ''card_game''" by code_simp
  have ne: "''card_game'' \<noteq> []" by simp
  have F: "?F = descend ''card_game'' (newIndex (tree ?T))" by code_simp
  have cls: "ttlCharsMatch ?F = 0
              \<or> (ttlCharsMatch ?F < length ''card_game''
                  \<and> charsMatch ?F = length (nodeKey ?F))"
    by simp
  from insert_remove_round_trip[OF c refl k p ne F cls, of 3]
  show ?thesis using c k p F[symmetric] by simp
qed

subsection \<open>Scenarios\<close>

text \<open>
  C8 as the spec states it fails: after \<open>insert("car", 1)\<close>, \<open>insert("card", 2)\<close>,
  \<open>insert("care", 3)\<close> it is not the case that \<open>keywordCount\<close> and \<open>dataCount\<close> are 2
  and that the node \<open>car\<close> holds no data.
\<close>

theorem scenario_A_counterexample:
  "\<not> (keywordCount (run stringify_nat [Insert ''car'' 1, Insert ''card'' 2, Insert ''care'' 3] emptyTree) = 2
      \<and> dataCount (run stringify_nat [Insert ''car'' 1, Insert ''card'' 2, Insert ''care'' 3] emptyTree) = 2
      \<and> map_option dollar (get_node [''car'']
           (tree (run stringify_nat [Insert ''car'' 1, Insert ''card'' 2, Insert ''care'' 3] emptyTree)))
         = Some None)"
  by code_simp

text \<open>
  C8, amended. The three inserts give a node \<open>car\<close> that holds the data list \<open>[1]\<close> and
  has the children \<open>d\<close> and \<open>e\<close>, holding \<open>[2]\<close> and \<open>[3]\<close>; \<open>keywordCount\<close> and
  \<open>dataCount\<close> are both 3.
\<close>

theorem scenario_A:
  "run stringify_nat [Insert ''car'' 1, Insert ''card'' 2, Insert ''care'' 3] emptyTree =
     \<lparr>keywordCount = 3, dataCount = 3,
      tree = Node [(''car'', Node [(''d'', Node [] (Some [2])), (''e'', Node [] (Some [3]))]
                                  (Some [1]))] None,
      keySwap = None\<rparr>"
  by code_simp

end

